theory Spec2Isabelle
  imports Main
begin

section \<open>Strings of the host language\<close>

text \<open>
  A Python \<open>str\<close> is modelled as a \<open>string\<close> whose characters are the code points
  below 256.  \<open>isspace\<close> is \<open>str.isspace\<close> on those code points: the characters that
  \<open>str.split()\<close> and \<open>str.strip()\<close> treat as whitespace.
\<close>

definition isspace :: "char \<Rightarrow> bool" where
  "isspace c = (c \<in> set [CHR 0x09, CHR 0x0A, CHR 0x0B, CHR 0x0C, CHR 0x0D,
                          CHR 0x1C, CHR 0x1D, CHR 0x1E, CHR 0x1F, CHR 0x20,
                          CHR 0x85, CHR 0xA0])"

text \<open>The characters at which \<open>str.splitlines()\<close> ends a line.\<close>

definition is_linebreak :: "char \<Rightarrow> bool" where
  "is_linebreak c = (c \<in> set [CHR 0x0A, CHR 0x0B, CHR 0x0C, CHR 0x0D,
                               CHR 0x1C, CHR 0x1D, CHR 0x1E, CHR 0x85])"

text \<open>\<open>s.strip()\<close>: whitespace removed at both ends.\<close>

definition lstrip :: "string \<Rightarrow> string" where
  "lstrip s = dropWhile isspace s"

definition rstrip :: "string \<Rightarrow> string" where
  "rstrip s = rev (dropWhile isspace (rev s))"

definition strip :: "string \<Rightarrow> string" where
  "strip s = rstrip (lstrip s)"

text \<open>
  \<open>s.split()\<close>: the maximal runs of non-whitespace characters, in order.  The first
  argument is the token being read.
\<close>

fun split_aux :: "string \<Rightarrow> string \<Rightarrow> string list" where
  "split_aux cur [] = (if cur = [] then [] else [cur])"
| "split_aux cur (c # cs) =
     (if isspace c then (if cur = [] then split_aux [] cs else cur # split_aux [] cs)
      else split_aux (cur @ [c]) cs)"

definition split :: "string \<Rightarrow> string list" where
  "split s = split_aux [] s"

text \<open>
  \<open>s.split(maxsplit=1)\<close>: leading whitespace is skipped, the first token is cut off,
  the whitespace after it is skipped, and whatever remains (trailing whitespace
  included) is the second element; nothing is appended when nothing remains.
\<close>

definition split_maxsplit1 :: "string \<Rightarrow> string list" where
  "split_maxsplit1 s =
     (let s1 = dropWhile isspace s in
      if s1 = [] then []
      else let tok = takeWhile (\<lambda>c. \<not> isspace c) s1;
               rest = dropWhile isspace (dropWhile (\<lambda>c. \<not> isspace c) s1)
           in if rest = [] then [tok] else [tok, rest])"

text \<open>
  \<open>s.splitlines()\<close>: the flag records that the previous character was a carriage
  return, so that a line feed right after it belongs to the same line end; there is no
  empty last line.
\<close>

fun splitlines_aux :: "bool \<Rightarrow> string \<Rightarrow> string \<Rightarrow> string list" where
  "splitlines_aux after_cr cur [] = (if cur = [] then [] else [cur])"
| "splitlines_aux after_cr cur (c # cs) =
     (if c = CHR 0x0A \<and> after_cr then splitlines_aux False cur cs
      else if is_linebreak c then cur # splitlines_aux (c = CHR 0x0D) [] cs
      else splitlines_aux False (cur @ [c]) cs)"

definition splitlines :: "string \<Rightarrow> string list" where
  "splitlines s = splitlines_aux False [] s"

text \<open>\<open>sep.join(xs)\<close>.\<close>

fun join :: "string \<Rightarrow> string list \<Rightarrow> string" where
  "join sep [] = []"
| "join sep [x] = x"
| "join sep (x # y # ys) = x @ sep @ join sep (y # ys)"

section \<open>Errors\<close>

datatype py_error =
    ValueError
  | IndexError
  | UnboundLocalError
  | FileWatcherException string
  | SMTPException
  | OSError
  | re_error

section \<open>The compiled pattern\<close>

text \<open>
  The regular-expression engine is the host platform's.  A compiled pattern is its
  source text together with the engine's answer to "does the pattern match the string
  \<open>s\<close> starting at position \<open>i\<close>" (\<open>regex.match(s, i)\<close>).  \<open>regex.search(s)\<close> scans
  the start positions \<open>0 .. len(s)\<close> and succeeds when one of them matches.
\<close>

record regex =
  pattern :: string
  match_at :: "string \<Rightarrow> nat \<Rightarrow> bool"

definition search :: "regex \<Rightarrow> string \<Rightarrow> bool" where
  "search rx s = list_ex (match_at rx s) [0 ..< Suc (length s)]"

section \<open>Matching the new lines\<close>

text \<open>
  \<open>matched_lines[line_no] = line\<close> on an ordered dictionary: the value of an existing
  key is replaced where the key stands, a new key is appended.
\<close>

fun od_set :: "('k \<times> 'v) list \<Rightarrow> 'k \<Rightarrow> 'v \<Rightarrow> ('k \<times> 'v) list" where
  "od_set [] k v = [(k, v)]"
| "od_set ((k', v') # kvs) k v =
     (if k' = k then (k, v) # kvs else (k', v') # od_set kvs k v)"

text \<open>
  The loop of \<open>base_verifier_sender\<close> over \<open>new_lines\<close>: a line that does not unpack into
  exactly two parts raises \<open>ValueError\<close>, which the loop catches and skips.
\<close>

fun matched_lines_from :: "regex \<Rightarrow> (string \<times> string) list \<Rightarrow> string list \<Rightarrow> (string \<times> string) list" where
  "matched_lines_from rx acc [] = acc"
| "matched_lines_from rx acc (l # ls) =
     (case split_maxsplit1 l of
        [line_no, line] \<Rightarrow>
          matched_lines_from rx (if search rx line then od_set acc line_no line else acc) ls
      | _ \<Rightarrow> matched_lines_from rx acc ls)"

definition matched_lines :: "regex \<Rightarrow> string list \<Rightarrow> (string \<times> string) list" where
  "matched_lines rx new_lines = matched_lines_from rx [] new_lines"

section \<open>The notification sinks\<close>

text \<open>
  What the sinks do to the outside world is recorded as a trace of events.  The outside
  world's answers are inputs: \<open>logger_result\<close> is what running the logger command through
  \<open>_run_command\<close> gives (an exception raised while the command is split or spawned, or
  the command's exit status), \<open>smtp_connect_ok\<close> whether \<open>smtplib.SMTP('localhost', 25)\<close>
  returns a client, \<open>smtp_sendmail_ok\<close> whether \<open>sendmail\<close> returns.
\<close>

datatype event =
    Logger_run string int
  | Smtp_connected
  | Smtp_sendmail string "string list" string
  | Smtp_sendmail_failed
  | Smtp_closed

record sink_env =
  logger_result :: "py_error + int"
  smtp_connect_ok :: bool
  smtp_sendmail_ok :: bool

text \<open>
  \<open>send_mail\<close>: the \<open>try\<close> block connects and sends, the \<open>finally\<close> block closes the
  client.  When the connection is not established, \<open>smtp_client\<close> was never assigned and
  the \<open>finally\<close> block itself raises \<open>UnboundLocalError\<close>, which replaces the
  connection error.
\<close>

definition send_mail :: "sink_env \<Rightarrow> string \<Rightarrow> string list \<Rightarrow> string \<Rightarrow> string \<Rightarrow> event list \<times> py_error option" where
  "send_mail env from_addr to_addrs subject body =
     (let to_addrs_str = join '', '' to_addrs;
          subject1 = ''Filewatcher: '' @ subject;
          body1 = ''Mail sent by filewatcher.\<newline>\<newline>'' @ body @ ''\<newline>'';
          message = ''From: '' @ from_addr @ ''\<newline>To: '' @ to_addrs_str
                    @ ''\<newline>Subject: '' @ subject1 @ ''\<newline>\<newline>'' @ body1 @ ''\<newline>''
      in if \<not> smtp_connect_ok env then ([], Some UnboundLocalError)
         else if smtp_sendmail_ok env
           then ([Smtp_connected, Smtp_sendmail from_addr to_addrs message, Smtp_closed], None)
           else ([Smtp_connected, Smtp_sendmail_failed, Smtp_closed], Some SMTPException))"

text \<open>
  \<open>log_syslog\<close>: the command is the literal of the source (a backslash-newline inside
  the literal joins its two lines, so the indentation of the second line is part of
  the string) with the message appended; the result is whether the exit status is 0.
\<close>

definition log_syslog :: "sink_env \<Rightarrow> string \<Rightarrow> event list \<times> (py_error + bool)" where
  "log_syslog env message =
     (let command = ''/usr/bin/logger --priority local0.info                 filewatcher: '' @ message
      in case logger_result env of
           Inl e \<Rightarrow> ([], Inl e)
         | Inr rc \<Rightarrow> ([Logger_run command rc], Inr (rc = 0)))"

text \<open>
  \<open>base_verifier_sender\<close>.  An absent \<open>--from\<close> (\<open>None\<close>) and an empty one are both
  false in the source's tests and are modelled as the empty string; likewise an absent
  \<open>--to\<close> is the empty list.  The result is the trace and the exception that left the
  function, if any.
\<close>

definition matched_lines_str :: "(string \<times> string) list \<Rightarrow> string" where
  "matched_lines_str ml =
     join ''\<newline>'' (map (\<lambda>(line_no, line). ''line_no:'' @ line_no @ ''::'' @ line) ml)"

definition base_verifier_sender ::
  "sink_env \<Rightarrow> string list \<Rightarrow> bool \<Rightarrow> string \<Rightarrow> string list \<Rightarrow> regex \<Rightarrow> string
     \<Rightarrow> event list \<times> py_error option" where
  "base_verifier_sender env new_lines syslog from_addr to_addrs rx filename =
     (let ml = matched_lines rx new_lines in
      if ml = [] then ([], None)
      else
        let (ev1, r1) =
              (if syslog
               then log_syslog env (''file: '' @ filename @ '':: '' @ matched_lines_str ml)
               else ([], Inr True))
        in case r1 of
             Inl e \<Rightarrow> (ev1, Some e)
           | Inr _ \<Rightarrow>
               if from_addr \<noteq> []
               then (let (ev2, r2) =
                           send_mail env from_addr to_addrs
                             (''Regex pattern '' @ pattern rx @ '' matched in '' @ filename)
                             (''Regex: '' @ pattern rx @ ''\<newline>File: '' @ filename
                              @ ''\<newline>\<newline>'' @ matched_lines_str ml @ ''\<newline>'')
                     in (ev1 @ ev2, r2))
               else (ev1, None))"

section \<open>Numbers as text\<close>

text \<open>The decimal digits of a natural number, as \<open>nl\<close> prints a line number.\<close>

fun digits_of :: "nat \<Rightarrow> string" where
  "digits_of n =
     (if n < 10 then [char_of (48 + n)]
      else digits_of (n div 10) @ [char_of (48 + n mod 10)])"

declare digits_of.simps [simp del]

definition is_digit :: "char \<Rightarrow> bool" where
  "is_digit c = (48 \<le> (of_char c :: nat) \<and> (of_char c :: nat) \<le> 57)"

definition digit_val :: "char \<Rightarrow> nat" where
  "digit_val c = of_char c - 48"

definition digits_value :: "string \<Rightarrow> nat" where
  "digits_value ds = foldl (\<lambda>a c. 10 * a + digit_val c) 0 ds"

text \<open>
  The digit part of an integer literal: a digit, then digits each of which may be
  preceded by one underscore.
\<close>

fun digits_ok :: "string \<Rightarrow> bool" where
  "digits_ok [] = False"
| "digits_ok [c] = is_digit c"
| "digits_ok (c # d # cs) =
     (is_digit c \<and> (if d = CHR ''_'' then digits_ok cs else digits_ok (d # cs)))"

text \<open>
  \<open>int(s)\<close> in base 10: surrounding whitespace is ignored, one sign is allowed, and a
  string that is not a literal raises \<open>ValueError\<close> (\<open>None\<close> here).  The interpreter's
  limit on the number of digits is left out.
\<close>

definition py_int :: "string \<Rightarrow> int option" where
  "py_int s =
     (let t = strip s;
          neg = (t \<noteq> [] \<and> hd t = CHR ''-'');
          body = (if t \<noteq> [] \<and> (hd t = CHR ''-'' \<or> hd t = CHR ''+'') then tl t else t)
      in if digits_ok body
         then Some ((if neg then - 1 else 1)
                    * int (digits_value (filter (\<lambda>c. c \<noteq> CHR ''_'') body)))
         else None)"

section \<open>The line-range command\<close>

text \<open>
  \<open>str(i)\<close> of an integer, as \<open>format\<close> writes it into the command line.
\<close>

definition str_int :: "int \<Rightarrow> string" where
  "str_int i = (if i < 0 then CHR ''-'' # digits_of (nat (- i)) else digits_of (nat i))"

text \<open>
  \<open>tail_cmd\<close> is the source's format of the command line: the path and the line number
  are pasted into the text as they are, the path without quotes.
\<close>

definition tail_cmd :: "string \<Rightarrow> int \<Rightarrow> string" where
  "tail_cmd filename line_no = ''nl -ba '' @ filename @ '' | tail -n +'' @ str_int line_no"

text \<open>
  The command line is handed to the shell (\<open>shell=True\<close>).  The shell and the programs it
  starts are not part of the program: a shell is taken as what it prints on standard
  output for a command line and the files it finds, and the files it leaves.  A file
  is the list of its lines, by path; \<open>None\<close> is a path where nothing can be read.
\<close>

type_synonym filesystem = "string \<Rightarrow> string list option"

type_synonym shell = "string \<Rightarrow> filesystem \<Rightarrow> string \<times> filesystem"

text \<open>
  \<open>new_lines\<close> is \<open>_run_command(tail_cmd_partial(line_no=line_no + 1))[1].splitlines()\<close>:
  the standard output of the command line, stripped by \<open>_run_command\<close>, split into
  lines.  The files are returned as the shell left them.
\<close>

definition new_lines :: "shell \<Rightarrow> filesystem \<Rightarrow> string \<Rightarrow> int \<Rightarrow> string list \<times> filesystem" where
  "new_lines sh fs filename line_no =
     (let (stdout, fs1) = sh (tail_cmd filename (line_no + 1)) fs
      in (splitlines (strip stdout), fs1))"

text \<open>
  What \<open>nl -ba F | tail -n +K\<close> prints when the shell runs just these two programs on
  one file, as the \<open>nl\<close> and \<open>tail\<close> of GNU coreutils 9.4 behave.  \<open>nl\<close> takes a line that is
  exactly \<open>\:\:\:\<close>, \<open>\:\:\<close> or \<open>\:\<close> as the start of a header, a body or a footer: it
  prints an empty line for it and starts numbering from 1 again.  With \<open>-ba\<close> every
  line of a body is numbered, the number right-aligned in six columns and followed by
  a tab; the lines of a header and of a footer are not numbered and are set behind
  seven blanks.  The text starts in a body.  A file that cannot be read gives no
  output.  \<open>tail -n +K\<close> prints from the K-th line on (from the first for K = 0) and
  prints nothing when K is negative or beyond 64 bits, which it refuses.
\<close>

definition header_del :: string where
  "header_del = [CHR 0x5C, CHR '':'', CHR 0x5C, CHR '':'', CHR 0x5C, CHR '':'']"

definition body_del :: string where
  "body_del = [CHR 0x5C, CHR '':'', CHR 0x5C, CHR '':'']"

definition footer_del :: string where
  "footer_del = [CHR 0x5C, CHR '':'']"

datatype nl_section = Header | Body | Footer

definition nl_line :: "nat \<Rightarrow> string \<Rightarrow> string" where
  "nl_line n l = replicate (6 - length (digits_of n)) CHR '' '' @ digits_of n @ [CHR 0x09] @ l"

fun nl_from :: "nl_section \<Rightarrow> nat \<Rightarrow> string list \<Rightarrow> string list" where
  "nl_from sec n [] = []"
| "nl_from sec n (l # ls) =
     (if l = header_del then [] # nl_from Header 1 ls
      else if l = body_del then [] # nl_from Body 1 ls
      else if l = footer_del then [] # nl_from Footer 1 ls
      else if sec = Body then nl_line n l # nl_from sec (Suc n) ls
      else (replicate 7 CHR '' '' @ l) # nl_from sec n ls)"

definition nl_ba :: "string list \<Rightarrow> string list" where
  "nl_ba ls = nl_from Body 1 ls"

definition nl_tail_stdout :: "string list option \<Rightarrow> int \<Rightarrow> string" where
  "nl_tail_stdout f k =
     (case f of
        None \<Rightarrow> []
      | Some ls \<Rightarrow>
          if k < 0 \<or> 2 ^ 64 \<le> k then []
          else concat (map (\<lambda>l. l @ [CHR 0x0A]) (drop (nat k - 1) (nl_ba ls))))"

text \<open>
  Setting \<open>line_no\<close>: \<open>int(new_lines_[-1].split()[0])\<close>, where an \<open>IndexError\<close> (no last
  line, or no token in it) is caught and gives 1, and the \<open>ValueError\<close> of \<open>int\<close> is not
  caught.
\<close>

definition set_line_no :: "string list \<Rightarrow> py_error + int" where
  "set_line_no nls =
     (if nls = [] then Inr 1
      else case split (last nls) of
             [] \<Rightarrow> Inr 1
           | tok # _ \<Rightarrow> (case py_int tok of None \<Rightarrow> Inl ValueError | Some n \<Rightarrow> Inr n))"

section \<open>The watch loop\<close>

text \<open>
  What one pass of the loop meets: the exit status of the \<open>inotifywait | grep\<close>
  pipeline, the shell, the files at that moment, and the answers of the sinks.
\<close>

record cycle_env =
  inotify_status :: int
  shell :: shell
  files :: filesystem
  sinks :: sink_env

text \<open>
  One pass of \<open>while True\<close>, from the offset \<open>line_no\<close>: the trace of the pass, and the
  new offset or the exception that leaves the loop.  (\<open>time.sleep\<close> has no effect on the
  values.)
\<close>

definition watch_cycle ::
  "string \<Rightarrow> regex \<Rightarrow> bool \<Rightarrow> string \<Rightarrow> string list \<Rightarrow> int \<Rightarrow> cycle_env
     \<Rightarrow> event list \<times> (py_error + int)" where
  "watch_cycle filename rx syslog from_addr to_addrs line_no env =
     (if inotify_status env = 0
      then
        let nls = fst (new_lines (shell env) (files env) filename line_no) in
        case set_line_no nls of
          Inl e \<Rightarrow> ([], Inl e)
        | Inr line_no1 \<Rightarrow>
            (case base_verifier_sender (sinks env) nls syslog from_addr to_addrs rx filename of
               (evs, Some e) \<Rightarrow> (evs, Inl e)
             | (evs, None) \<Rightarrow> (evs, Inr line_no1))
      else ([], Inr line_no))"

text \<open>
  The loop never returns by itself.  Run over the passes the environment has offered so
  far, it has either been left by an exception (\<open>Inl\<close>) or is still running at an offset
  (\<open>Inr\<close>).
\<close>

fun watch_loop ::
  "string \<Rightarrow> regex \<Rightarrow> bool \<Rightarrow> string \<Rightarrow> string list \<Rightarrow> int \<Rightarrow> cycle_env list
     \<Rightarrow> event list \<times> (py_error + int)" where
  "watch_loop filename rx syslog from_addr to_addrs line_no [] = ([], Inr line_no)"
| "watch_loop filename rx syslog from_addr to_addrs line_no (env # envs) =
     (case watch_cycle filename rx syslog from_addr to_addrs line_no env of
        (evs, Inl e) \<Rightarrow> (evs, Inl e)
      | (evs, Inr line_no1) \<Rightarrow>
          (let (evs1, r) = watch_loop filename rx syslog from_addr to_addrs line_no1 envs
           in (evs @ evs1, r)))"

definition check_input_combo :: "bool \<Rightarrow> bool \<Rightarrow> string \<Rightarrow> py_error + bool" where
  "check_input_combo one two exc_msg =
     (if one then (if \<not> two then Inl (FileWatcherException exc_msg) else Inr True)
      else Inr True)"

definition base_watcher ::
  "string \<Rightarrow> regex \<Rightarrow> bool \<Rightarrow> string \<Rightarrow> string list \<Rightarrow> cycle_env list
     \<Rightarrow> event list \<times> (py_error + int)" where
  "base_watcher filename rx syslog from_addr to_addrs envs =
     (if \<not> (syslog \<or> from_addr \<noteq> [] \<or> to_addrs \<noteq> [])
      then ([], Inl (FileWatcherException ''No syslog or send mail arguments specified''))
      else
        case check_input_combo (from_addr \<noteq> []) (to_addrs \<noteq> [])
               ''No mail send to address(es) specified'' of
          Inl e \<Rightarrow> ([], Inl e)
        | Inr _ \<Rightarrow>
            (case check_input_combo (to_addrs \<noteq> []) (from_addr \<noteq> [])
                    ''No mail from address specified'' of
               Inl e \<Rightarrow> ([], Inl e)
             | Inr _ \<Rightarrow> watch_loop filename rx syslog from_addr to_addrs 0 envs))"

section \<open>The co-ordinator\<close>

text \<open>
  The parsed command line.  \<open>--regex\<close> and \<open>--file\<close> are required, \<open>--syslog\<close> is a flag;
  an absent \<open>--from\<close> or \<open>--to\<close> is the empty string or list, as above.
\<close>

record args =
  regex_arg :: string
  watch_files :: "string list"
  syslog_arg :: bool
  from_addr_arg :: string
  to_addrs_arg :: "string list"

text \<open>
  How \<open>main\<close> ends: an exception leaves it, it returns a flag, or it is still waiting in
  \<open>result.wait()\<close> after the passes offered so far.
\<close>

datatype main_outcome = Raised py_error | Returned bool | Waiting

text \<open>
  \<open>str(exc)\<close>: the message of a \<open>FileWatcherException\<close> is the one it was raised with; the
  text of the interpreter's and the libraries' own exceptions is a parameter.
\<close>

definition str_exc :: "(py_error \<Rightarrow> string) \<Rightarrow> py_error \<Rightarrow> string" where
  "str_exc text e = (case e of FileWatcherException msg \<Rightarrow> msg | _ \<Rightarrow> text e)"

definition mp_error_callback :: "sink_env \<Rightarrow> string \<Rightarrow> event list \<times> (py_error + bool)" where
  "mp_error_callback env exc_str = log_syslog env (''filewatcher: '' @ exc_str)"

text \<open>
  \<open>main\<close>.  \<open>re.compile\<close> is a parameter: \<open>None\<close> when it raises \<open>re.error\<close>.  The pool
  runs \<open>base_watcher\<close> once per file, each in a process of its own; \<open>envs f\<close> are the
  passes offered to the watcher of \<open>f\<close>.  The result of \<open>map_async\<close> is ready only when
  every watcher has ended, which a watcher does by an exception only; then the error
  callback is called with an exception of the failed watchers (the first in the order
  of the files here), and \<open>main\<close> returns the success flag.  An error callback that
  raises leaves the result unready for ever.  The traces of the watchers are put one
  after the other in the order of the files.  A pool of no processes is refused with
  \<open>ValueError\<close>.
\<close>

definition main ::
  "(string \<Rightarrow> regex option) \<Rightarrow> (py_error \<Rightarrow> string) \<Rightarrow> args \<Rightarrow> (string \<Rightarrow> cycle_env list)
     \<Rightarrow> sink_env \<Rightarrow> event list \<times> main_outcome" where
  "main compile text a envs cb_env =
     (case compile (regex_arg a) of
        None \<Rightarrow> ([], Raised re_error)
      | Some rx \<Rightarrow>
          if watch_files a = [] then ([], Raised ValueError)
          else
            let results = map (\<lambda>f. base_watcher f rx (syslog_arg a) (from_addr_arg a)
                                      (to_addrs_arg a) (envs f)) (watch_files a);
                evs = concat (map fst results);
                excs = List.map_filter
                         (\<lambda>r. case snd r of Inl e \<Rightarrow> Some e | Inr _ \<Rightarrow> None) results
            in if length excs = length results
               then (case mp_error_callback cb_env (str_exc text (hd excs)) of
                       (cb_evs, Inl e) \<Rightarrow> (evs @ cb_evs, Waiting)
                     | (cb_evs, Inr _) \<Rightarrow> (evs @ cb_evs, Returned False))
               else (evs, Waiting))"

text \<open>
  The script calls \<open>main()\<close> and drops its value: the interpreter ends with status 1
  after an uncaught exception and with status 0 after a return.
\<close>

definition script_exit_status :: "main_outcome \<Rightarrow> nat option" where
  "script_exit_status r =
     (case r of Raised e \<Rightarrow> Some 1 | Returned b \<Rightarrow> Some 0 | Waiting \<Rightarrow> None)"

section \<open>Notions used in the statements\<close>

text \<open>What one line contributes to the matched lines: its two parts, when the second part matches.\<close>

definition line_record :: "regex \<Rightarrow> string \<Rightarrow> (string \<times> string) option" where
  "line_record rx l =
     (case split_maxsplit1 l of
        [line_no, line] \<Rightarrow> if search rx line then Some (line_no, line) else None
      | _ \<Rightarrow> None)"

text \<open>
  The content portion of a numbered line in the words of the specification: the text
  after the leading line-number token.
\<close>

definition spec_content_portion :: "string \<Rightarrow> string" where
  "spec_content_portion l = dropWhile (\<lambda>c. \<not> isspace c) (dropWhile isspace l)"

text \<open>
  Two compiled patterns: the empty pattern, which matches at every position, and a
  pattern of ordinary characters, which matches where the characters stand.
\<close>

definition rx_empty :: regex where
  "rx_empty = \<lparr>pattern = [], match_at = (\<lambda>s i. True)\<rparr>"

definition rx_literal :: "string \<Rightarrow> regex" where
  "rx_literal lit = \<lparr>pattern = lit, match_at = (\<lambda>s i. take (length lit) (drop i s) = lit)\<rparr>"

text \<open>
  A stand-in for \<open>re.compile\<close> in the examples: it compiles a pattern of ordinary
  characters and refuses a pattern that holds an opening parenthesis.
\<close>

definition compile_literal :: "string \<Rightarrow> regex option" where
  "compile_literal p = (if CHR ''('' \<in> set p then None else Some (rx_literal p))"

text \<open>A line of a file is plain when no character in it ends a line for \<open>splitlines\<close>.\<close>

definition plain_line :: "string \<Rightarrow> bool" where
  "plain_line l = (\<not> list_ex is_linebreak l)"

text \<open>The line numbers seen in a diff: the integers that the first tokens of its lines spell.\<close>

definition diff_line_numbers :: "string list \<Rightarrow> int list" where
  "diff_line_numbers d =
     List.map_filter (\<lambda>l. case split l of [] \<Rightarrow> None | tok # _ \<Rightarrow> py_int tok) d"

text \<open>A line at which \<open>nl\<close> starts a header, a body or a footer.\<close>

definition section_delimiter :: "string \<Rightarrow> bool" where
  "section_delimiter l = (l = header_del \<or> l = body_del \<or> l = footer_del)"

text \<open>A file system with one file.\<close>

definition single_file :: "string \<Rightarrow> string list \<Rightarrow> filesystem" where
  "single_file name ls = (\<lambda>p. if p = name then Some ls else None)"

text \<open>
  A word that the shell hands to a program as it is written, and that the program
  takes for a path: letters, digits, \<open>/\<close>, \<open>.\<close>, \<open>_\<close> and \<open>-\<close>, not starting with \<open>-\<close>.
\<close>

definition sh_ordinary :: "char \<Rightarrow> bool" where
  "sh_ordinary c =
     (c \<in> set ''abcdefghijklmnopqrstuvwxyzABCDEFGHIJKLMNOPQRSTUVWXYZ0123456789/._-'')"

definition shell_word :: "string \<Rightarrow> bool" where
  "shell_word w = (w \<noteq> [] \<and> hd w \<noteq> CHR ''-'' \<and> list_all sh_ordinary w)"

text \<open>
  The shell of the examples.  It knows the command lines of \<open>tail_cmd\<close> whose path is
  such a word: for them the shell starts \<open>nl\<close> and \<open>tail\<close> on the file at that path, and
  the files stay as they are.  No other command line occurs in the examples; this
  shell prints nothing for them, which says nothing about a real one.
\<close>

definition plain_shell :: shell where
  "plain_shell cmd fs =
     (case split cmd of
        [c1, c2, p, c3, c4, c5, k] \<Rightarrow>
          (case py_int (tl k) of
             Some n \<Rightarrow>
               if shell_word p \<and> cmd = tail_cmd p n then (nl_tail_stdout (fs p) n, fs)
               else ([], fs)
           | None \<Rightarrow> ([], fs))
      | _ \<Rightarrow> ([], fs))"


text \<open>
  Sinks that all answer well, and a pass in which the file was modified, with the shell
  of the examples.
\<close>

definition sinks_ok :: sink_env where
  "sinks_ok = \<lparr>logger_result = Inr 0, smtp_connect_ok = True, smtp_sendmail_ok = True\<rparr>"

definition modified :: "filesystem \<Rightarrow> sink_env \<Rightarrow> cycle_env" where
  "modified fs s = \<lparr>inotify_status = 0, shell = plain_shell, files = fs, sinks = s\<rparr>"

text \<open>
  A command line is a configuration error when it names no sink, or a sender without
  recipients, or recipients without a sender.
\<close>

definition config_error :: "args \<Rightarrow> bool" where
  "config_error a =
     ((\<not> syslog_arg a \<and> from_addr_arg a = [] \<and> to_addrs_arg a = [])
      \<or> (from_addr_arg a \<noteq> [] \<and> to_addrs_arg a = [])
      \<or> (to_addrs_arg a \<noteq> [] \<and> from_addr_arg a = []))"

text \<open>An environment that offers no pass to any watcher, and exception texts left empty.\<close>

definition no_passes :: "string \<Rightarrow> cycle_env list" where
  "no_passes f = []"

definition no_text :: "py_error \<Rightarrow> string" where
  "no_text e = []"

text \<open>The first token of a line: what \<open>split\<close> gives first, when the line has a token at all.\<close>

definition first_token :: "string \<Rightarrow> string" where
  "first_token s = takeWhile (\<lambda>c. \<not> isspace c) (dropWhile isspace s)"

section \<open>A shell with sequences\<close>






section \<open>Facts about the text functions\<close>

lemma is_digit_not_space: "is_digit c \<Longrightarrow> \<not> isspace c"
  by (auto simp: is_digit_def isspace_def)

lemma is_digit_not_linebreak: "is_digit c \<Longrightarrow> \<not> is_linebreak c"
  by (auto simp: is_digit_def is_linebreak_def)

lemma is_digit_char_of: "(d::nat) < 10 \<Longrightarrow> is_digit (char_of (48 + d))"
  by (simp add: is_digit_def)

lemma digits_of_digits: "c \<in> set (digits_of n) \<Longrightarrow> is_digit c"
proof (induction n arbitrary: c rule: digits_of.induct)
  case (1 n)
  show ?case
  proof (cases "n < 10")
    case True
    with "1.prems" show ?thesis
      by (subst (asm) digits_of.simps) (simp add: is_digit_char_of)
  next
    case False
    have "n mod 10 < 10" by simp
    then have last_digit: "is_digit (char_of (48 + n mod 10))"
      by (rule is_digit_char_of)
    from "1.prems" False have "c \<in> set (digits_of (n div 10)) \<or> c = char_of (48 + n mod 10)"
      by (subst (asm) digits_of.simps) auto
    with "1.IH" [OF False] last_digit show ?thesis by blast
  qed
qed

lemma digits_of_nonempty: "digits_of n \<noteq> []"
  by (subst digits_of.simps) simp

lemma search_iff: "search rx s \<longleftrightarrow> (\<exists>i \<le> length s. match_at rx s i)"
proof -
  have "set [0 ..< Suc (length s)] = {i. i \<le> length s}" by auto
  then show ?thesis
    unfolding search_def list_ex_iff by blast
qed

section \<open>The matched lines\<close>

lemma split_maxsplit1_two:
  assumes "dropWhile isspace (dropWhile (\<lambda>c. \<not> isspace c) (dropWhile isspace l)) \<noteq> []"
  shows "split_maxsplit1 l =
     [takeWhile (\<lambda>c. \<not> isspace c) (dropWhile isspace l),
      dropWhile isspace (dropWhile (\<lambda>c. \<not> isspace c) (dropWhile isspace l))]"
proof -
  have "dropWhile isspace l \<noteq> []"
  proof
    assume "dropWhile isspace l = []"
    then have "dropWhile isspace (dropWhile (\<lambda>c. \<not> isspace c) (dropWhile isspace l)) = []"
      by (simp only: dropWhile.simps)
    with assms show False by (rule notE)
  qed
  with assms show ?thesis
    unfolding split_maxsplit1_def Let_def by (simp only: simp_thms if_False)
qed

lemma split_maxsplit1_short:
  assumes "dropWhile isspace (dropWhile (\<lambda>c. \<not> isspace c) (dropWhile isspace l)) = []"
  shows "length (split_maxsplit1 l) < 2"
proof (cases "dropWhile isspace l = []")
  case True
  then have "split_maxsplit1 l = []"
    unfolding split_maxsplit1_def Let_def by (simp only: simp_thms if_True)
  then show ?thesis by simp
next
  case False
  with assms have "split_maxsplit1 l = [takeWhile (\<lambda>c. \<not> isspace c) (dropWhile isspace l)]"
    unfolding split_maxsplit1_def Let_def by (simp only: simp_thms if_True if_False)
  then show ?thesis by simp
qed


lemma matched_lines_from_short:
  assumes "length (split_maxsplit1 l) < 2"
  shows "matched_lines_from rx acc (l # ls) = matched_lines_from rx acc ls"
proof (cases "split_maxsplit1 l")
  case Nil
  then show ?thesis by (simp only: matched_lines_from.simps list.case)
next
  case (Cons a as)
  with assms have "as = []" by simp
  with Cons show ?thesis by (simp only: matched_lines_from.simps list.case)
qed

lemma matched_lines_from_foldl:
  "matched_lines_from rx acc ls =
     foldl (\<lambda>a (k, v). od_set a k v) acc (List.map_filter (line_record rx) ls)"
proof (induction ls arbitrary: acc)
  case Nil
  show ?case by (simp add: List.map_filter_simps)
next
  case (Cons l ls)
  show ?case
    by (simp add: Cons.IH List.map_filter_simps line_record_def split: list.splits)
qed

lemma od_set_fresh: "k \<notin> fst ` set acc \<Longrightarrow> od_set acc k v = acc @ [(k, v)]"
  by (induction acc) auto

lemma foldl_od_set_distinct:
  "distinct (map fst kvs) \<Longrightarrow> fst ` set acc \<inter> fst ` set kvs = {}
     \<Longrightarrow> foldl (\<lambda>a (k, v). od_set a k v) acc kvs = acc @ kvs"
proof (induction kvs arbitrary: acc)
  case Nil
  show ?case by simp
next
  case (Cons kv kvs)
  obtain k v where kv: "kv = (k, v)" by (cases kv)
  from Cons.prems have fresh: "k \<notin> fst ` set acc" by (auto simp: kv)
  from Cons.prems have d: "distinct (map fst kvs)" and nk: "k \<notin> fst ` set kvs"
    by (auto simp: kv)
  from Cons.prems nk have disj: "fst ` set (acc @ [(k, v)]) \<inter> fst ` set kvs = {}"
    by (auto simp: kv)
  show ?case
    using Cons.IH [OF d disj] by (simp add: kv od_set_fresh [OF fresh])
qed

lemma matched_lines_distinct:
  "distinct (map fst (List.map_filter (line_record rx) nls))
     \<Longrightarrow> matched_lines rx nls = List.map_filter (line_record rx) nls"
  using foldl_od_set_distinct [of "List.map_filter (line_record rx) nls" "[]"]
  by (simp add: matched_lines_def matched_lines_from_foldl)

lemma line_record_Some:
  "line_record rx l = Some (line_no, line) \<longleftrightarrow>
     split_maxsplit1 l = [line_no, line] \<and> search rx line"
  by (auto simp: line_record_def split: list.splits if_splits)

lemma set_map_filter: "y \<in> set (List.map_filter f xs) \<longleftrightarrow> (\<exists>x \<in> set xs. f x = Some y)"
  by (induction xs) (auto simp: List.map_filter_simps split: option.splits)

text \<open>
  C1 (as amended).  When no two matching lines of a batch carry the same line-number
  token (the numbering of one diff never repeats a number), the matched lines are, in
  the order of the batch, exactly the lines that split into a token and a non-empty
  rest on which the pattern's search succeeds: a pair of token and rest is among the
  matched lines if and only if some line of the batch splits into that pair and the
  search succeeds on the rest.
\<close>

theorem matched_lines_exactly_the_matching_lines:
  assumes "distinct (map fst (List.map_filter (line_record rx) nls))"
  shows "matched_lines rx nls = List.map_filter (line_record rx) nls \<and>
         ((line_no, line) \<in> set (matched_lines rx nls) \<longleftrightarrow>
            (\<exists>l \<in> set nls. split_maxsplit1 l = [line_no, line] \<and> search rx line))"
  by (simp add: matched_lines_distinct [OF assms] set_map_filter line_record_Some)

theorem matched_lines_exactly_the_matching_lines_witness:
  "distinct (map fst (List.map_filter (line_record (rx_literal ''ERROR''))
                        [''1 line1 INFO ok'', ''2 line2 ERROR boom'']))
   \<and> matched_lines (rx_literal ''ERROR'') [''1 line1 INFO ok'', ''2 line2 ERROR boom'']
       = [(''2'', ''line2 ERROR boom'')]
   \<and> (''2'', ''line2 ERROR boom'')
       \<in> set (matched_lines (rx_literal ''ERROR'') [''1 line1 INFO ok'', ''2 line2 ERROR boom''])"
proof -
  let ?rx = "rx_literal ''ERROR''"
  let ?nls = "[''1 line1 INFO ok'', ''2 line2 ERROR boom'']"
  have h: "distinct (map fst (List.map_filter (line_record ?rx) ?nls))"
    by code_simp
  have r: "List.map_filter (line_record ?rx) ?nls = [(''2'', ''line2 ERROR boom'')]"
    by code_simp
  from matched_lines_exactly_the_matching_lines [OF h, of "''2''" "''line2 ERROR boom''"]
  have "matched_lines ?rx ?nls = List.map_filter (line_record ?rx) ?nls" by blast
  with h r show ?thesis by simp
qed

text \<open>
  C1 as stated fails.  A blank first line of a file reaches the verifier as the line
  \<open>1\<close>; its content portion is empty, the empty pattern matches it, and yet the line
  is not among the matched lines.
\<close>

theorem blank_line_is_a_false_negative:
  "search rx_empty (spec_content_portion ''1'') \<and> matched_lines rx_empty [''1''] = []"
  by (simp add: search_def rx_empty_def spec_content_portion_def matched_lines_def
      split_maxsplit1_def isspace_def)

text \<open>
  C10.  In each step of the matching loop the text that is searched is the line without
  its leading whitespace, its first token and the whitespace after that token; when
  this text is not empty and the pattern matches at some position of it (any position
  from 0 to its length), the first token is bound to the text in the matched lines,
  and otherwise the line changes nothing.
\<close>

theorem search_on_normalized_content:
  "matched_lines_from rx acc (l # ls) =
     (let content = dropWhile isspace (dropWhile (\<lambda>c. \<not> isspace c) (dropWhile isspace l))
      in matched_lines_from rx
           (if content \<noteq> [] \<and> (\<exists>i \<le> length content. match_at rx content i)
            then od_set acc (takeWhile (\<lambda>c. \<not> isspace c) (dropWhile isspace l)) content
            else acc) ls)"
proof (cases "dropWhile isspace (dropWhile (\<lambda>c. \<not> isspace c) (dropWhile isspace l)) = []")
  case True
  from split_maxsplit1_short [OF True]
  have "matched_lines_from rx acc (l # ls) = matched_lines_from rx acc ls"
    by (rule matched_lines_from_short)
  with True show ?thesis by (simp only: Let_def simp_thms if_False)
next
  case False
  have "matched_lines_from rx acc (l # ls) =
      matched_lines_from rx
        (if search rx (dropWhile isspace (dropWhile (\<lambda>c. \<not> isspace c) (dropWhile isspace l)))
         then od_set acc (takeWhile (\<lambda>c. \<not> isspace c) (dropWhile isspace l))
                (dropWhile isspace (dropWhile (\<lambda>c. \<not> isspace c) (dropWhile isspace l)))
         else acc) ls"
    by (simp only: matched_lines_from.simps split_maxsplit1_two [OF False] list.case)
  with False show ?thesis by (simp only: Let_def search_iff simp_thms)
qed

theorem search_on_normalized_content_witness:
  "matched_lines_from (rx_literal ''ERROR'') [] [''  7    an ERROR here ''] =
     [(''7'', ''an ERROR here '')]"
proof -
  have tok: "takeWhile (\<lambda>c. \<not> isspace c) (dropWhile isspace ''  7    an ERROR here '') = ''7''"
    by code_simp
  have content: "dropWhile isspace (dropWhile (\<lambda>c. \<not> isspace c)
      (dropWhile isspace ''  7    an ERROR here '')) = ''an ERROR here ''"
    by code_simp
  have "match_at (rx_literal ''ERROR'') ''an ERROR here '' 3"
    by (simp add: rx_literal_def)
  then have pos: "\<exists>i \<le> length ''an ERROR here ''. match_at (rx_literal ''ERROR'') ''an ERROR here '' i"
    by (intro exI [of _ 3]) simp
  show ?thesis
    using search_on_normalized_content [of "rx_literal ''ERROR''" "[]" "''  7    an ERROR here ''" "[]"]
    by (simp only: tok content Let_def pos) simp
qed

section \<open>Lines that carry a number only\<close>

lemma dropWhile_space_padding:
  "dropWhile isspace (replicate k CHR '' '' @ s) = dropWhile isspace s"
  by (rule dropWhile_append2) (simp add: isspace_def)

lemma digits_of_not_space: "c \<in> set (digits_of n) \<Longrightarrow> \<not> isspace c"
  using digits_of_digits is_digit_not_space by blast

lemma dropWhile_space_digits:
  "dropWhile isspace (digits_of n @ s) = digits_of n @ s"
proof -
  obtain d ds where dd: "digits_of n = d # ds"
    using digits_of_nonempty [of n] by (cases "digits_of n") auto
  then have "\<not> isspace d" using digits_of_not_space [of d n] by simp
  then show ?thesis by (simp add: dd)
qed

lemma nl_line_blank_number_only:
  "dropWhile isspace (dropWhile (\<lambda>c. \<not> isspace c) (dropWhile isspace (nl_line n []))) = []"
proof -
  have tab: "isspace (CHR 0x09)" by (simp add: isspace_def)
  have 1: "dropWhile isspace (nl_line n []) = digits_of n @ [CHR 0x09]"
    unfolding nl_line_def by (simp only: dropWhile_space_padding dropWhile_space_digits append_Nil2)
  have 2: "dropWhile (\<lambda>c. \<not> isspace c) (digits_of n @ [CHR 0x09]) = [CHR 0x09]"
    using tab by (simp add: dropWhile_append2 digits_of_not_space)
  show ?thesis by (simp add: 1 2 tab)
qed

text \<open>
  C9.  A line that has nothing after its first token and the whitespace that follows
  it (the form in which a blank line of the file arrives, whatever pattern is
  configured) is skipped by the matching loop, and a batch made of such a line alone
  sends nothing to any sink.
\<close>

theorem number_only_line_is_skipped:
  assumes "dropWhile isspace (dropWhile (\<lambda>c. \<not> isspace c) (dropWhile isspace l)) = []"
  shows "matched_lines_from rx acc (l # ls) = matched_lines_from rx acc ls \<and>
         base_verifier_sender env [l] syslog from_addr to_addrs rx filename = ([], None)"
proof -
  have short: "length (split_maxsplit1 l) < 2"
    using assms by (rule split_maxsplit1_short)
  have step: "matched_lines_from rx acc (l # ls) = matched_lines_from rx acc ls"
    using short by (rule matched_lines_from_short)
  have "matched_lines_from rx [] [l] = matched_lines_from rx [] []"
    using short by (rule matched_lines_from_short)
  then have one: "matched_lines rx [l] = []"
    by (simp add: matched_lines_def)
  have "base_verifier_sender env [l] syslog from_addr to_addrs rx filename = ([], None)"
    by (simp add: base_verifier_sender_def one)
  with step show ?thesis by (rule conjI)
qed

theorem number_only_line_is_skipped_witness:
  "dropWhile isspace (dropWhile (\<lambda>c. \<not> isspace c) (dropWhile isspace (nl_line 3 []))) = []
   \<and> matched_lines_from rx_empty [] [nl_line 3 [], ''4 x''] = [(''4'', ''x'')]
   \<and> base_verifier_sender sinks_ok [nl_line 3 []] True ''a@x'' [''b@y''] rx_empty ''f'' = ([], None)"
proof -
  have h: "dropWhile isspace (dropWhile (\<lambda>c. \<not> isspace c) (dropWhile isspace (nl_line 3 []))) = []"
    by (rule nl_line_blank_number_only)
  have r: "matched_lines_from rx_empty [] [''4 x''] = [(''4'', ''x'')]"
    by code_simp
  note t = number_only_line_is_skipped [OF h, of rx_empty "[]" "[''4 x'']" sinks_ok True
      "''a@x''" "[''b@y'']" "''f''"]
  from t have a: "matched_lines_from rx_empty [] [nl_line 3 [], ''4 x''] =
      matched_lines_from rx_empty [] [''4 x'']"
    by (rule conjunct1)
  from t have b: "base_verifier_sender sinks_ok [nl_line 3 []] True ''a@x'' [''b@y''] rx_empty ''f''
      = ([], None)"
    by (rule conjunct2)
  show ?thesis
    by (intro conjI) (rule h, rule trans [OF a r], rule b)
qed

section \<open>The mail connection\<close>



section \<open>Sink failures\<close>

lemma base_verifier_sender_syslog_and_mail:
  assumes "matched_lines rx nls \<noteq> []" and "from_addr \<noteq> []"
    and "logger_result s = Inr rc"
  shows "smtp_connect_ok s \<and> smtp_sendmail_ok s \<Longrightarrow>
          \<exists>cmd msg. base_verifier_sender s nls True from_addr to_addrs rx filename =
            ([Logger_run cmd rc, Smtp_connected, Smtp_sendmail from_addr to_addrs msg, Smtp_closed],
             None)"
    and "\<not> (smtp_connect_ok s \<and> smtp_sendmail_ok s) \<Longrightarrow>
          \<exists>evs e. base_verifier_sender s nls True from_addr to_addrs rx filename = (evs, Some e)"
  using assms
  by (auto simp: base_verifier_sender_def log_syslog_def send_mail_def Let_def)

text \<open>
  C6 (as amended).  In a pass with a non-empty batch of matched lines, with both sinks
  configured, a logger command that ends with any exit status (a non-zero status is
  the failure of the syslog sink) does not keep the mail from being sent: the message
  is delivered, the pass ends with the new offset and the loop goes on with the
  remaining passes.  When the mail server refuses the connection or the message, the
  exception leaves the loop, whatever passes remain.
\<close>

theorem syslog_failure_keeps_mail_and_loop:
  assumes "inotify_status env = 0"
    and "fst (new_lines (shell env) (files env) filename line_no) = nls"
    and "matched_lines rx nls \<noteq> []"
    and "set_line_no nls = Inr line_no1"
    and "from_addr \<noteq> []"
    and "logger_result (sinks env) = Inr rc"
  shows "(smtp_connect_ok (sinks env) \<and> smtp_sendmail_ok (sinks env) \<longrightarrow>
           (\<exists>cmd msg.
              watch_cycle filename rx True from_addr to_addrs line_no env =
                ([Logger_run cmd rc, Smtp_connected, Smtp_sendmail from_addr to_addrs msg,
                  Smtp_closed], Inr line_no1)
              \<and> watch_loop filename rx True from_addr to_addrs line_no (env # envs) =
                ([Logger_run cmd rc, Smtp_connected, Smtp_sendmail from_addr to_addrs msg,
                  Smtp_closed]
                   @ fst (watch_loop filename rx True from_addr to_addrs line_no1 envs),
                 snd (watch_loop filename rx True from_addr to_addrs line_no1 envs))))
       \<and> (\<not> (smtp_connect_ok (sinks env) \<and> smtp_sendmail_ok (sinks env)) \<longrightarrow>
           (\<exists>evs e. watch_loop filename rx True from_addr to_addrs line_no (env # envs)
                      = (evs, Inl e)))"
proof (intro conjI impI)
  assume ok: "smtp_connect_ok (sinks env) \<and> smtp_sendmail_ok (sinks env)"
  from base_verifier_sender_syslog_and_mail(1) [OF assms(3) assms(5) assms(6) ok]
  obtain cmd msg where b:
    "base_verifier_sender (sinks env) nls True from_addr to_addrs rx filename =
       ([Logger_run cmd rc, Smtp_connected, Smtp_sendmail from_addr to_addrs msg, Smtp_closed],
        None)"
    by blast
  have c: "watch_cycle filename rx True from_addr to_addrs line_no env =
      ([Logger_run cmd rc, Smtp_connected, Smtp_sendmail from_addr to_addrs msg, Smtp_closed],
       Inr line_no1)"
    by (simp add: watch_cycle_def assms(1) assms(2) assms(4) b)
  have "watch_loop filename rx True from_addr to_addrs line_no (env # envs) =
      ([Logger_run cmd rc, Smtp_connected, Smtp_sendmail from_addr to_addrs msg, Smtp_closed]
         @ fst (watch_loop filename rx True from_addr to_addrs line_no1 envs),
       snd (watch_loop filename rx True from_addr to_addrs line_no1 envs))"
    by (simp add: c split: prod.splits)
  with c show "\<exists>cmd msg.
      watch_cycle filename rx True from_addr to_addrs line_no env =
        ([Logger_run cmd rc, Smtp_connected, Smtp_sendmail from_addr to_addrs msg, Smtp_closed],
         Inr line_no1)
      \<and> watch_loop filename rx True from_addr to_addrs line_no (env # envs) =
        ([Logger_run cmd rc, Smtp_connected, Smtp_sendmail from_addr to_addrs msg, Smtp_closed]
           @ fst (watch_loop filename rx True from_addr to_addrs line_no1 envs),
         snd (watch_loop filename rx True from_addr to_addrs line_no1 envs))"
    by blast
next
  assume bad: "\<not> (smtp_connect_ok (sinks env) \<and> smtp_sendmail_ok (sinks env))"
  from base_verifier_sender_syslog_and_mail(2) [OF assms(3) assms(5) assms(6) bad]
  obtain evs e where b:
    "base_verifier_sender (sinks env) nls True from_addr to_addrs rx filename = (evs, Some e)"
    by blast
  have "watch_cycle filename rx True from_addr to_addrs line_no env = (evs, Inl e)"
    by (simp add: watch_cycle_def assms(1) assms(2) assms(4) b)
  then have "watch_loop filename rx True from_addr to_addrs line_no (env # envs) = (evs, Inl e)"
    by simp
  then show "\<exists>evs e. watch_loop filename rx True from_addr to_addrs line_no (env # envs)
      = (evs, Inl e)"
    by blast
qed

theorem syslog_failure_keeps_mail_and_loop_witness:
  "inotify_status (modified (single_file ''f'' [''ERROR one''])
       \<lparr>logger_result = Inr 1, smtp_connect_ok = True, smtp_sendmail_ok = True\<rparr>) = 0
   \<and> matched_lines (rx_literal ''ERROR'')
        (fst (new_lines plain_shell (single_file ''f'' [''ERROR one'']) ''f'' 0)) \<noteq> []
   \<and> set_line_no (fst (new_lines plain_shell (single_file ''f'' [''ERROR one'']) ''f'' 0)) = Inr 1
   \<and> (\<exists>cmd msg.
        watch_cycle ''f'' (rx_literal ''ERROR'') True ''a@x'' [''b@y''] 0
          (modified (single_file ''f'' [''ERROR one''])
             \<lparr>logger_result = Inr 1, smtp_connect_ok = True, smtp_sendmail_ok = True\<rparr>)
        = ([Logger_run cmd 1, Smtp_connected, Smtp_sendmail ''a@x'' [''b@y''] msg, Smtp_closed],
           Inr 1))"
proof -
  let ?s = "\<lparr>logger_result = Inr 1, smtp_connect_ok = True, smtp_sendmail_ok = True\<rparr>"
  let ?fs = "single_file ''f'' [''ERROR one'']"
  let ?env = "modified ?fs ?s"
  have h1: "inotify_status ?env = 0" by (simp add: modified_def)
  have h2: "fst (new_lines (shell ?env) (files ?env) ''f'' 0) = fst (new_lines plain_shell ?fs ''f'' 0)"
    by (simp add: modified_def)
  have h3: "matched_lines (rx_literal ''ERROR'') (fst (new_lines plain_shell ?fs ''f'' 0)) \<noteq> []"
    by code_simp
  have h4: "set_line_no (fst (new_lines plain_shell ?fs ''f'' 0)) = Inr 1"
    by code_simp
  have h5: "''a@x'' \<noteq> []" by simp
  have h6: "logger_result (sinks ?env) = Inr 1" by (simp add: modified_def)
  have ok: "smtp_connect_ok (sinks ?env) \<and> smtp_sendmail_ok (sinks ?env)"
    by (simp add: modified_def)
  from syslog_failure_keeps_mail_and_loop [OF h1 h2 h3 h4 h5 h6, of "[''b@y'']" "[]"] ok
  have "\<exists>cmd msg.
        watch_cycle ''f'' (rx_literal ''ERROR'') True ''a@x'' [''b@y''] 0 ?env
        = ([Logger_run cmd 1, Smtp_connected, Smtp_sendmail ''a@x'' [''b@y''] msg, Smtp_closed],
           Inr 1)"
    by blast
  with h1 h3 h4 show ?thesis by blast
qed

text \<open>
  C6 as stated fails.  The mail server refuses the message of the first pass; the
  exception ends the loop, and the second pass, in which a new line matches, is never
  made: the trace holds the four events of the first pass only.
\<close>

theorem mail_failure_stops_the_loop:
  "snd (watch_loop ''f'' (rx_literal ''ERROR'') True ''a@x'' [''b@y''] 0
          [modified (single_file ''f'' [''ERROR one''])
             \<lparr>logger_result = Inr 0, smtp_connect_ok = True, smtp_sendmail_ok = False\<rparr>,
           modified (single_file ''f'' [''ERROR one'', ''ERROR two'']) sinks_ok])
     = Inl SMTPException
   \<and> length (fst (watch_loop ''f'' (rx_literal ''ERROR'') True ''a@x'' [''b@y''] 0
          [modified (single_file ''f'' [''ERROR one''])
             \<lparr>logger_result = Inr 0, smtp_connect_ok = True, smtp_sendmail_ok = False\<rparr>,
           modified (single_file ''f'' [''ERROR one'', ''ERROR two'']) sinks_ok])) = 4"
  by code_simp

section \<open>Configuration errors\<close>

lemma config_error_base_watcher:
  assumes "config_error a"
  shows "\<exists>msg. \<forall>f ps. base_watcher f rx (syslog_arg a) (from_addr_arg a) (to_addrs_arg a) ps
           = ([], Inl (FileWatcherException msg))"
proof -
  consider (none) "\<not> syslog_arg a" "from_addr_arg a = []" "to_addrs_arg a = []"
    | (no_to) "from_addr_arg a \<noteq> []" "to_addrs_arg a = []"
    | (no_from) "to_addrs_arg a \<noteq> []" "from_addr_arg a = []"
    using assms unfolding config_error_def by blast
  then show ?thesis
  proof cases
    case none
    then show ?thesis by (simp add: base_watcher_def)
  next
    case no_to
    then show ?thesis by (simp add: base_watcher_def check_input_combo_def)
  next
    case no_from
    then show ?thesis by (simp add: base_watcher_def check_input_combo_def)
  qed
qed

lemma map_filter_all_failed:
  "List.map_filter (\<lambda>r. case snd r of Inl e \<Rightarrow> Some e | Inr x \<Rightarrow> None)
     (map (\<lambda>f. ([], Inl (g f))) fs) = map g fs"
  by (induction fs) (simp_all add: List.map_filter_simps)

lemma main_config_error:
  assumes c: "compile (regex_arg a) = Some rx"
    and w: "\<forall>f ps. base_watcher f rx (syslog_arg a) (from_addr_arg a) (to_addrs_arg a) ps
           = ([], Inl (FileWatcherException msg))"
    and f: "watch_files a \<noteq> []" and l: "logger_result cb = Inr rc"
  shows "main compile text a envs cb =
     ([Logger_run (''/usr/bin/logger --priority local0.info                 filewatcher: ''
                   @ ''filewatcher: '' @ msg) rc], Returned False)"
proof -
  let ?g = "\<lambda>f::string. FileWatcherException msg"
  have results: "map (\<lambda>f. base_watcher f rx (syslog_arg a) (from_addr_arg a) (to_addrs_arg a)
                        (envs f)) (watch_files a)
        = map (\<lambda>f. ([], Inl (?g f))) (watch_files a)"
    using w by simp
  have excs: "List.map_filter (\<lambda>r. case snd r of Inl e \<Rightarrow> Some e | Inr x \<Rightarrow> None)
      (map (\<lambda>f. ([], Inl (?g f))) (watch_files a)) = map ?g (watch_files a)"
    by (rule map_filter_all_failed)
  have evs: "concat (map fst (map (\<lambda>f. ([]::event list, Inl (?g f) :: py_error + int))
      (watch_files a))) = []"
    by (induction "watch_files a") simp_all
  have hd_excs: "hd (map ?g (watch_files a)) = FileWatcherException msg"
    using f by (cases "watch_files a") simp_all
  have cb: "mp_error_callback cb (str_exc text (FileWatcherException msg)) =
     ([Logger_run (''/usr/bin/logger --priority local0.info                 filewatcher: ''
                   @ ''filewatcher: '' @ msg) rc], Inr (rc = 0))"
    by (simp add: mp_error_callback_def str_exc_def log_syslog_def l)
  show ?thesis
    unfolding main_def
    by (simp only: c option.case f if_False results Let_def excs evs hd_excs cb
        length_map simp_thms if_True prod.case sum.case append_Nil)
qed

text \<open>
  C5 (as amended).  A pattern that does not compile raises out of \<open>main\<close> before any
  watcher is started, and the script ends with status 1.  With a pattern that
  compiles, a command line that names no sink, a sender without recipients or
  recipients without a sender makes every watcher raise \<open>FileWatcherException\<close> before
  its first pass, whatever passes are offered; the exception goes to the error
  callback, which logs it through the logger command, and \<open>main\<close> returns the flag
  \<open>False\<close>.
\<close>

theorem configuration_errors_end_before_any_pass:
  "(compile (regex_arg a) = None \<longrightarrow>
      main compile text a envs cb = ([], Raised re_error)
      \<and> script_exit_status (snd (main compile text a envs cb)) = Some 1)
   \<and> (\<forall>rx. compile (regex_arg a) = Some rx \<and> config_error a \<longrightarrow>
        (\<exists>msg.
           (\<forall>f ps. base_watcher f rx (syslog_arg a) (from_addr_arg a) (to_addrs_arg a) ps
                     = ([], Inl (FileWatcherException msg)))
           \<and> (\<forall>rc. watch_files a \<noteq> [] \<and> logger_result cb = Inr rc \<longrightarrow>
                 main compile text a envs cb =
                   ([Logger_run
                       (''/usr/bin/logger --priority local0.info                 filewatcher: ''
                        @ ''filewatcher: '' @ msg) rc], Returned False))))"
proof (intro conjI impI allI)
  assume "compile (regex_arg a) = None"
  then show "main compile text a envs cb = ([], Raised re_error)"
    by (simp add: main_def)
  then show "script_exit_status (snd (main compile text a envs cb)) = Some 1"
    by (simp add: script_exit_status_def)
next
  fix rx
  assume h: "compile (regex_arg a) = Some rx \<and> config_error a"
  then obtain msg where w:
    "\<forall>f ps. base_watcher f rx (syslog_arg a) (from_addr_arg a) (to_addrs_arg a) ps
       = ([], Inl (FileWatcherException msg))"
    using config_error_base_watcher by blast
  have "\<forall>rc. watch_files a \<noteq> [] \<and> logger_result cb = Inr rc \<longrightarrow>
      main compile text a envs cb =
        ([Logger_run (''/usr/bin/logger --priority local0.info                 filewatcher: ''
                      @ ''filewatcher: '' @ msg) rc], Returned False)"
    using main_config_error [of compile a rx msg cb _ "text" envs] h w by blast
  with w show "\<exists>msg.
      (\<forall>f ps. base_watcher f rx (syslog_arg a) (from_addr_arg a) (to_addrs_arg a) ps
                = ([], Inl (FileWatcherException msg)))
      \<and> (\<forall>rc. watch_files a \<noteq> [] \<and> logger_result cb = Inr rc \<longrightarrow>
            main compile text a envs cb =
              ([Logger_run
                  (''/usr/bin/logger --priority local0.info                 filewatcher: ''
                   @ ''filewatcher: '' @ msg) rc], Returned False))"
    by blast
qed

theorem configuration_errors_end_before_any_pass_witness:
  "compile_literal (regex_arg \<lparr>regex_arg = ''(ERROR'', watch_files = [''f''], syslog_arg = True,
       from_addr_arg = [], to_addrs_arg = []\<rparr>) = None
   \<and> main compile_literal no_text
        \<lparr>regex_arg = ''(ERROR'', watch_files = [''f''], syslog_arg = True,
         from_addr_arg = [], to_addrs_arg = []\<rparr> no_passes sinks_ok = ([], Raised re_error)
   \<and> compile_literal (regex_arg \<lparr>regex_arg = ''ERROR'', watch_files = [''f''], syslog_arg = True,
       from_addr_arg = ''a@x'', to_addrs_arg = []\<rparr>) = Some (rx_literal ''ERROR'')
   \<and> config_error \<lparr>regex_arg = ''ERROR'', watch_files = [''f''], syslog_arg = True,
       from_addr_arg = ''a@x'', to_addrs_arg = []\<rparr>
   \<and> snd (main compile_literal no_text
        \<lparr>regex_arg = ''ERROR'', watch_files = [''f''], syslog_arg = True,
         from_addr_arg = ''a@x'', to_addrs_arg = []\<rparr> no_passes sinks_ok) = Returned False"
proof -
  let ?a1 = "\<lparr>regex_arg = ''(ERROR'', watch_files = [''f''], syslog_arg = True,
       from_addr_arg = [], to_addrs_arg = []\<rparr>"
  let ?a0 = "\<lparr>regex_arg = ''ERROR'', watch_files = [''f''], syslog_arg = True,
       from_addr_arg = ''a@x'', to_addrs_arg = []\<rparr>"
  have c1: "compile_literal (regex_arg ?a1) = None"
    by (simp add: compile_literal_def)
  have c0: "compile_literal (regex_arg ?a0) = Some (rx_literal ''ERROR'')"
    by (simp add: compile_literal_def)
  have ce: "config_error ?a0"
    by (simp add: config_error_def)
  have f: "watch_files ?a0 \<noteq> []" by simp
  have l: "logger_result sinks_ok = Inr 0" by (simp add: sinks_ok_def)
  from configuration_errors_end_before_any_pass [of compile_literal ?a1 no_text no_passes sinks_ok] c1
  have r1: "main compile_literal no_text ?a1 no_passes sinks_ok = ([], Raised re_error)"
    by blast
  from configuration_errors_end_before_any_pass [of compile_literal ?a0 no_text no_passes sinks_ok]
    c0 ce
  obtain msg where
    "\<forall>rc. watch_files ?a0 \<noteq> [] \<and> logger_result sinks_ok = Inr rc \<longrightarrow>
       main compile_literal no_text ?a0 no_passes sinks_ok =
         ([Logger_run (''/usr/bin/logger --priority local0.info                 filewatcher: ''
                       @ ''filewatcher: '' @ msg) rc], Returned False)"
    by blast
  with f l have "snd (main compile_literal no_text ?a0 no_passes sinks_ok) = Returned False"
    by simp
  with c1 r1 c0 ce show ?thesis by blast
qed

text \<open>
  C5 as stated fails.  With no sink named, the watcher raises, the error callback logs
  the exception, \<open>main\<close> returns, and the script ends with status 0.
\<close>

theorem no_sink_ends_with_status_zero:
  "config_error \<lparr>regex_arg = ''ERROR'', watch_files = [''f''], syslog_arg = False,
       from_addr_arg = [], to_addrs_arg = []\<rparr>
   \<and> script_exit_status (snd (main compile_literal no_text
        \<lparr>regex_arg = ''ERROR'', watch_files = [''f''], syslog_arg = False,
         from_addr_arg = [], to_addrs_arg = []\<rparr> no_passes sinks_ok)) = Some 0"
  by (simp add: config_error_def main_def compile_literal_def base_watcher_def
      List.map_filter_simps mp_error_callback_def log_syslog_def sinks_ok_def
      script_exit_status_def str_exc_def Let_def)

section \<open>The offset after a truncation\<close>

text \<open>
  C2.  The watcher stands at offset 3 when the file is cut down to one line that the
  pattern matches.  The pass that sees the truncation reads no line and sets the
  offset to 1; the next pass, after a line was appended, reads from line 2 on.  Line 1
  of the file after the truncation is never read, and nothing is sent.
\<close>

theorem truncation_reset_skips_line_one:
  "search (rx_literal ''ERROR'') ''ERROR disk full''
   \<and> watch_loop ''f'' (rx_literal ''ERROR'') True [] [] 3
        [modified (single_file ''f'' [''ERROR disk full'']) sinks_ok]
      = ([], Inr 1)
   \<and> fst (new_lines plain_shell (single_file ''f'' [''ERROR disk full'', ''ok'']) ''f'' 1)
      = [''2'' @ [CHR 0x09] @ ''ok'']
   \<and> watch_loop ''f'' (rx_literal ''ERROR'') True [] [] 3
        [modified (single_file ''f'' [''ERROR disk full'']) sinks_ok,
         modified (single_file ''f'' [''ERROR disk full'', ''ok'']) sinks_ok]
      = ([], Inr 2)"
  by code_simp

section \<open>Stripping\<close>

lemma rstrip_append_nonspace:
  assumes "\<exists>x \<in> set v. \<not> isspace x"
  shows "rstrip (u @ v) = u @ rstrip v"
proof -
  from assms obtain x where "x \<in> set (rev v)" and "\<not> isspace x" by auto
  then have "dropWhile isspace (rev v @ rev u) = dropWhile isspace (rev v) @ rev u"
    by (rule dropWhile_append1)
  then show ?thesis by (simp add: rstrip_def)
qed

lemma rstrip_append_space:
  assumes "\<forall>x \<in> set w. isspace x"
  shows "rstrip (v @ w) = rstrip v"
proof -
  have "dropWhile isspace (rev w @ rev v) = dropWhile isspace (rev v)"
    by (rule dropWhile_append2) (use assms in simp)
  then show ?thesis by (simp add: rstrip_def)
qed

lemma lstrip_append_nonspace:
  assumes "\<exists>x \<in> set v. \<not> isspace x"
  shows "lstrip (v @ w) = lstrip v @ w"
proof -
  from assms obtain x where "x \<in> set v" and "\<not> isspace x" by auto
  then show ?thesis unfolding lstrip_def by (rule dropWhile_append1)
qed

lemma lstrip_nonspace: "(\<exists>x \<in> set v. \<not> isspace x) \<Longrightarrow> \<exists>x \<in> set (lstrip v). \<not> isspace x"
  unfolding lstrip_def by (induction v) auto

lemma linefeed_space: "isspace (CHR 0x0A)"
  by (simp add: isspace_def)

lemma strip_one_line:
  assumes "\<exists>x \<in> set x1. \<not> isspace x"
  shows "strip (x1 @ [CHR 0x0A]) = strip x1"
proof -
  have "lstrip (x1 @ [CHR 0x0A]) = lstrip x1 @ [CHR 0x0A]"
    using assms by (rule lstrip_append_nonspace)
  moreover have "rstrip (lstrip x1 @ [CHR 0x0A]) = rstrip (lstrip x1)"
    by (rule rstrip_append_space) (simp add: linefeed_space)
  ultimately show ?thesis by (simp add: strip_def)
qed

lemma strip_many_lines:
  assumes x: "\<exists>c \<in> set x1. \<not> isspace c" and z: "\<exists>c \<in> set z. \<not> isspace c"
  shows "strip (x1 @ [CHR 0x0A] @ mid @ z @ [CHR 0x0A]) = lstrip x1 @ [CHR 0x0A] @ mid @ rstrip z"
proof -
  have 1: "lstrip (x1 @ ([CHR 0x0A] @ mid @ z @ [CHR 0x0A])) = lstrip x1 @ ([CHR 0x0A] @ mid @ z @ [CHR 0x0A])"
    using x by (rule lstrip_append_nonspace)
  have 2: "rstrip ((lstrip x1 @ [CHR 0x0A] @ mid @ z) @ [CHR 0x0A]) = rstrip (lstrip x1 @ [CHR 0x0A] @ mid @ z)"
    by (rule rstrip_append_space) (simp add: linefeed_space)
  have 3: "rstrip ((lstrip x1 @ [CHR 0x0A] @ mid) @ z) = (lstrip x1 @ [CHR 0x0A] @ mid) @ rstrip z"
    using z by (rule rstrip_append_nonspace)
  from 1 2 3 show ?thesis by (simp add: strip_def)
qed

section \<open>Splitting into lines\<close>

lemma splitlines_aux_plain:
  "plain_line x \<Longrightarrow> splitlines_aux False cur (x @ rest) = splitlines_aux False (cur @ x) rest"
proof (induction x arbitrary: cur)
  case Nil
  show ?case by simp
next
  case (Cons c x)
  from Cons.prems have c: "\<not> is_linebreak c" and x: "plain_line x"
    by (simp_all add: plain_line_def)
  from c have "c \<noteq> CHR 0x0A" by (auto simp: is_linebreak_def)
  with c Cons.IH [OF x, of "cur @ [c]"] show ?case by simp
qed

lemma splitlines_aux_linefeed:
  "splitlines_aux False cur (CHR 0x0A # rest) = cur # splitlines_aux False [] rest"
  by (simp add: is_linebreak_def)

lemma splitlines_lines:
  assumes "\<forall>x \<in> set M. plain_line x" and "plain_line z" and "z \<noteq> []"
  shows "splitlines_aux False [] (concat (map (\<lambda>l. l @ [CHR 0x0A]) M) @ z) = M @ [z]"
  using assms(1)
proof (induction M)
  case Nil
  have "splitlines_aux False [] (z @ []) = splitlines_aux False ([] @ z) []"
    using assms(2) by (rule splitlines_aux_plain)
  with assms(3) show ?case by simp
next
  case (Cons x M)
  then have px: "plain_line x" and pM: "\<forall>x \<in> set M. plain_line x" by simp_all
  have "splitlines_aux False [] (x @ (CHR 0x0A # concat (map (\<lambda>l. l @ [CHR 0x0A]) M) @ z))
      = splitlines_aux False ([] @ x) (CHR 0x0A # concat (map (\<lambda>l. l @ [CHR 0x0A]) M) @ z)"
    using px by (rule splitlines_aux_plain)
  also have "\<dots> = x # splitlines_aux False [] (concat (map (\<lambda>l. l @ [CHR 0x0A]) M) @ z)"
    by (simp only: append_Nil splitlines_aux_linefeed)
  also have "\<dots> = x # M @ [z]" by (simp only: Cons.IH [OF pM])
  finally show ?case by simp
qed


lemma plain_line_iff: "plain_line l \<longleftrightarrow> (\<forall>c \<in> set l. \<not> is_linebreak c)"
  by (simp add: plain_line_def list_ex_iff)

lemma plain_lstrip: "plain_line x \<Longrightarrow> plain_line (lstrip x)"
  unfolding plain_line_iff lstrip_def using set_dropWhileD by fastforce

lemma plain_rstrip: "plain_line x \<Longrightarrow> plain_line (rstrip x)"
proof -
  assume p: "plain_line x"
  have "set (rstrip x) \<subseteq> set x"
    unfolding rstrip_def using set_dropWhileD [of _ isspace "rev x"] by auto
  with p show ?thesis unfolding plain_line_iff by blast
qed

lemma dropWhile_keeps: "x \<in> set xs \<Longrightarrow> \<not> P x \<Longrightarrow> x \<in> set (dropWhile P xs)"
  by (induction xs) auto

lemma rstrip_nonspace:
  assumes "\<exists>x \<in> set z. \<not> isspace x"
  shows "\<exists>x \<in> set (rstrip z). \<not> isspace x"
proof -
  from assms obtain x where "x \<in> set (rev z)" and n: "\<not> isspace x" by auto
  then have "x \<in> set (dropWhile isspace (rev z))" by (rule dropWhile_keeps)
  with n show ?thesis by (auto simp: rstrip_def)
qed

lemma rstrip_id:
  assumes "t \<noteq> []" and "\<forall>x \<in> set t. \<not> isspace x"
  shows "rstrip t = t"
proof -
  from assms(1) obtain c cs where r: "rev t = c # cs" by (cases "rev t") auto
  then have "c \<in> set t" by (metis list.set_intros(1) set_rev)
  with assms(2) have "\<not> isspace c" by blast
  with r have "dropWhile isspace (rev t) = rev t" by simp
  then show ?thesis by (simp add: rstrip_def)
qed

section \<open>The first token\<close>

lemma first_token_parts:
  assumes a: "\<forall>x \<in> set a. isspace x" and t: "t \<noteq> []" and tn: "\<forall>x \<in> set t. \<not> isspace x"
    and c: "c = [] \<or> isspace (hd c)"
  shows "first_token (a @ t @ c) = t"
proof -
  have 1: "dropWhile isspace (a @ t @ c) = dropWhile isspace (t @ c)"
    by (rule dropWhile_append2) (use a in simp)
  from t obtain t0 ts where tt: "t = t0 # ts" by (cases t) auto
  with tn have "\<not> isspace t0" by simp
  then have 2: "dropWhile isspace (t @ c) = t @ c" by (simp add: tt)
  have 3: "takeWhile (\<lambda>c. \<not> isspace c) (t @ c) = t @ takeWhile (\<lambda>c. \<not> isspace c) c"
    by (rule takeWhile_append2) (use tn in simp)
  from c have 4: "takeWhile (\<lambda>c. \<not> isspace c) c = []" by (cases c) auto
  show ?thesis by (simp add: first_token_def 1 2 3 4)
qed

lemma line_parts:
  assumes "\<exists>x \<in> set y. \<not> isspace x"
  obtains a c where "y = a @ first_token y @ c" and "\<forall>x \<in> set a. isspace x"
    and "first_token y \<noteq> []" and "\<forall>x \<in> set (first_token y). \<not> isspace x"
    and "c = [] \<or> isspace (hd c)"
proof -
  let ?a = "takeWhile isspace y"
  let ?b = "dropWhile isspace y"
  let ?c = "dropWhile (\<lambda>c. \<not> isspace c) ?b"
  have y: "y = ?a @ first_token y @ ?c"
    by (simp add: first_token_def)
  have a: "\<forall>x \<in> set ?a. isspace x"
    using set_takeWhileD by fastforce
  from assms have b: "?b \<noteq> []" by (simp add: dropWhile_eq_Nil_conv)
  then have "\<not> isspace (hd ?b)" by (rule hd_dropWhile)
  with b have t: "first_token y \<noteq> []"
    by (cases ?b) (auto simp: first_token_def)
  have tn: "\<forall>x \<in> set (first_token y). \<not> isspace x"
    unfolding first_token_def using set_takeWhileD by fastforce
  have c: "?c = [] \<or> isspace (hd ?c)"
    using hd_dropWhile [of "\<lambda>c. \<not> isspace c" ?b] by blast
  from y a t tn c show thesis by (rule that)
qed

lemma first_token_lstrip: "first_token (lstrip y) = first_token y"
  by (simp add: first_token_def lstrip_def)

lemma first_token_rstrip:
  assumes "\<exists>x \<in> set y. \<not> isspace x"
  shows "first_token (rstrip y) = first_token y"
proof -
  from assms obtain a c where y: "y = a @ first_token y @ c"
    and a: "\<forall>x \<in> set a. isspace x"
    and t: "first_token y \<noteq> []" and tn: "\<forall>x \<in> set (first_token y). \<not> isspace x"
    and c: "c = [] \<or> isspace (hd c)"
    by (rule line_parts)
  let ?t = "first_token y"
  from t tn have tx: "\<exists>x \<in> set ?t. \<not> isspace x" by (cases ?t) auto
  show ?thesis
  proof (cases "\<forall>x \<in> set c. isspace x")
    case True
    have "rstrip ((a @ ?t) @ c) = rstrip (a @ ?t)"
      using True by (rule rstrip_append_space)
    also have "\<dots> = a @ rstrip ?t"
      using tx by (rule rstrip_append_nonspace)
    also have "\<dots> = a @ ?t @ []"
      by (simp add: rstrip_id [OF t tn])
    finally have "rstrip y = a @ ?t @ []" using y by simp
    moreover have "first_token (a @ ?t @ []) = ?t"
      using a t tn by (rule first_token_parts) simp
    ultimately show ?thesis by simp
  next
    case False
    then obtain s c1 where cc: "c = s # c1" by (cases c) auto
    with c have s: "isspace s" by simp
    with False cc have c1: "\<exists>x \<in> set c1. \<not> isspace x" by auto
    have "rstrip ((a @ ?t @ [s]) @ c1) = (a @ ?t @ [s]) @ rstrip c1"
      using c1 by (rule rstrip_append_nonspace)
    then have "rstrip y = a @ ?t @ (s # rstrip c1)" using y cc by simp
    moreover have "first_token (a @ ?t @ (s # rstrip c1)) = ?t"
      using a t tn by (rule first_token_parts) (simp add: s)
    ultimately show ?thesis by simp
  qed
qed

section \<open>Splitting at whitespace\<close>

lemma split_aux_space:
  "\<forall>x \<in> set a. isspace x \<Longrightarrow> split_aux [] (a @ s) = split_aux [] s"
  by (induction a) simp_all

lemma split_aux_nonspace:
  "\<forall>x \<in> set t. \<not> isspace x \<Longrightarrow> split_aux cur (t @ s) = split_aux (cur @ t) s"
  by (induction t arbitrary: cur) simp_all

lemma split_aux_token_end:
  "cur \<noteq> [] \<Longrightarrow> c = [] \<or> isspace (hd c) \<Longrightarrow> \<exists>rest. split_aux cur c = cur # rest"
  by (cases c) auto

lemma split_first_token:
  assumes "\<exists>x \<in> set y. \<not> isspace x"
  shows "\<exists>rest. split y = first_token y # rest"
proof -
  from assms obtain a c where y: "y = a @ first_token y @ c"
    and a: "\<forall>x \<in> set a. isspace x"
    and t: "first_token y \<noteq> []" and tn: "\<forall>x \<in> set (first_token y). \<not> isspace x"
    and c: "c = [] \<or> isspace (hd c)"
    by (rule line_parts)
  have "split_aux [] (a @ first_token y @ c) = split_aux [] (first_token y @ c)"
    using a by (rule split_aux_space)
  also have "\<dots> = split_aux ([] @ first_token y) c"
    using tn by (rule split_aux_nonspace)
  finally have "split y = split_aux (first_token y) c"
    using y by (simp add: split_def)
  with split_aux_token_end [OF t c] show ?thesis by simp
qed

section \<open>Reading a number back\<close>

lemma digit_val_char_of: "(d::nat) < 10 \<Longrightarrow> digit_val (char_of (48 + d)) = d"
  by (simp add: digit_val_def)

lemma digits_value_snoc: "digits_value (ds @ [c]) = 10 * digits_value ds + digit_val c"
  by (simp add: digits_value_def)

lemma digits_value_digits_of: "digits_value (digits_of n) = n"
proof (induction n rule: digits_of.induct)
  case (1 n)
  show ?case
  proof (cases "n < 10")
    case True
    then show ?thesis
      by (subst digits_of.simps) (simp add: digits_value_def digit_val_char_of)
  next
    case False
    have "digits_value (digits_of n)
        = digits_value (digits_of (n div 10) @ [char_of (48 + n mod 10)])"
      using False by (subst digits_of.simps) simp
    also have "\<dots> = 10 * (n div 10) + n mod 10"
      by (simp add: digits_value_snoc "1.IH" [OF False] digit_val_char_of)
    finally show ?thesis by simp
  qed
qed

lemma digits_ok_all_digits: "ds \<noteq> [] \<Longrightarrow> \<forall>c \<in> set ds. is_digit c \<Longrightarrow> digits_ok ds"
proof (induction ds rule: digits_ok.induct)
  case 1
  then show ?case by simp
next
  case (2 c)
  then show ?case by simp
next
  case (3 c d cs)
  from "3.prems" have d: "is_digit d" by simp
  then have nu: "d \<noteq> CHR ''_''" by (auto simp: is_digit_def)
  from "3.prems" have "digits_ok (d # cs)"
    using "3.IH"(2) [OF nu] by simp
  with "3.prems" nu show ?case by simp
qed

lemma strip_digits_of: "strip (digits_of n) = digits_of n"
proof -
  have "lstrip (digits_of n) = digits_of n"
    using dropWhile_space_digits [of n "[]"] by (simp add: lstrip_def)
  moreover have "rstrip (digits_of n) = digits_of n"
    using digits_of_nonempty digits_of_not_space by (intro rstrip_id) auto
  ultimately show ?thesis by (simp add: strip_def)
qed

lemma py_int_digits_of: "py_int (digits_of n) = Some (int n)"
proof -
  have ne: "digits_of n \<noteq> []" by (rule digits_of_nonempty)
  have dig: "\<forall>c \<in> set (digits_of n). is_digit c" using digits_of_digits by blast
  from ne have "hd (digits_of n) \<in> set (digits_of n)" by simp
  with dig have h: "is_digit (hd (digits_of n))" by blast
  then have sign: "hd (digits_of n) \<noteq> CHR ''-''" "hd (digits_of n) \<noteq> CHR ''+''"
    by (auto simp: is_digit_def)
  have ok: "digits_ok (digits_of n)" using ne dig by (rule digits_ok_all_digits)
  have "\<forall>c \<in> set (digits_of n). c \<noteq> CHR ''_''"
    using dig by (auto simp: is_digit_def)
  then have flt: "filter (\<lambda>c. c \<noteq> CHR ''_'') (digits_of n) = digits_of n"
    by (simp add: filter_id_conv)
  show ?thesis
    by (simp add: py_int_def Let_def strip_digits_of sign ok flt digits_value_digits_of)
qed

section \<open>The numbered lines\<close>



lemma nl_from_body_enumerate:
  "list_all (\<lambda>l. \<not> section_delimiter l) ls
     \<Longrightarrow> nl_from Body n ls = map (\<lambda>(i, l). nl_line i l) (List.enumerate n ls)"
  by (induction ls arbitrary: n) (simp_all add: section_delimiter_def)

lemma nl_ba_map:
  assumes "list_all (\<lambda>l. \<not> section_delimiter l) ls"
  shows "nl_ba ls = map (\<lambda>i. nl_line (Suc i) (ls ! i)) [0 ..< length ls]"
  unfolding nl_ba_def nl_from_body_enumerate [OF assms]
  by (rule nth_equalityI) (simp_all add: nth_enumerate_eq)

lemma drop_nl_ba:
  "list_all (\<lambda>l. \<not> section_delimiter l) ls
     \<Longrightarrow> drop k (nl_ba ls) = map (\<lambda>i. nl_line (Suc i) (ls ! i)) [k ..< length ls]"
  by (simp add: nl_ba_map drop_map)

lemma space_not_linebreak: "\<not> is_linebreak CHR '' ''" and tab_not_linebreak: "\<not> is_linebreak (CHR 0x09)"
  by (simp_all add: is_linebreak_def)

lemma plain_nl_line: "plain_line l \<Longrightarrow> plain_line (nl_line n l)"
  unfolding plain_line_iff nl_line_def
  using digits_of_digits is_digit_not_linebreak space_not_linebreak tab_not_linebreak
  by auto

lemma first_token_nl_line: "first_token (nl_line n l) = digits_of n"
proof -
  have pad: "\<forall>x \<in> set (replicate (6 - length (digits_of n)) CHR '' ''). isspace x"
    by (simp add: isspace_def)
  have dn: "\<forall>x \<in> set (digits_of n). \<not> isspace x"
    using digits_of_not_space by blast
  have tab: "CHR 0x09 # l = [] \<or> isspace (hd (CHR 0x09 # l))"
    by (simp add: isspace_def)
  have "first_token (replicate (6 - length (digits_of n)) CHR '' '' @ digits_of n @ (CHR 0x09 # l))
      = digits_of n"
    using pad digits_of_nonempty dn tab by (rule first_token_parts)
  then show ?thesis by (simp add: nl_line_def)
qed

lemma nl_line_nonspace: "\<exists>x \<in> set (nl_line n l). \<not> isspace x"
proof -
  obtain d ds where dd: "digits_of n = d # ds"
    using digits_of_nonempty [of n] by (cases "digits_of n") auto
  then have "\<not> isspace d" using digits_of_not_space [of d n] by simp
  moreover have "d \<in> set (nl_line n l)" by (simp add: nl_line_def dd)
  ultimately show ?thesis by blast
qed

section \<open>The lines of a diff\<close>

lemma strip_nonspace:
  assumes "\<exists>c \<in> set x. \<not> isspace c"
  shows "\<exists>c \<in> set (strip x). \<not> isspace c"
  unfolding strip_def using assms by (intro rstrip_nonspace lstrip_nonspace)

lemma first_token_strip:
  assumes "\<exists>c \<in> set x. \<not> isspace c"
  shows "first_token (strip x) = first_token x"
  unfolding strip_def
  using first_token_rstrip [OF lstrip_nonspace [OF assms]] by (simp add: first_token_lstrip)

lemma splitlines_strip_lines:
  assumes ne: "L \<noteq> []"
    and pl: "\<forall>x \<in> set L. plain_line x"
    and ns: "\<forall>x \<in> set L. \<exists>c \<in> set x. \<not> isspace c"
  shows "\<exists>d. splitlines (strip (concat (map (\<lambda>l. l @ [CHR 0x0A]) L))) = d
           \<and> map first_token d = map first_token L
           \<and> (\<forall>y \<in> set d. \<exists>c \<in> set y. \<not> isspace c)"
proof (cases L)
  case Nil
  with ne show ?thesis by simp
next
  case (Cons x L1)
  from pl ns Cons have px: "plain_line x" and nx: "\<exists>c \<in> set x. \<not> isspace c" by simp_all
  show ?thesis
  proof (cases "L1 = []")
    case True
    have s: "strip (x @ [CHR 0x0A]) = strip x" using nx by (rule strip_one_line)
    have pz: "plain_line (strip x)"
      unfolding strip_def using px by (intro plain_rstrip plain_lstrip)
    have nz: "\<exists>c \<in> set (strip x). \<not> isspace c" using nx by (rule strip_nonspace)
    then have "strip x \<noteq> []" by auto
    with splitlines_lines [of "[]" "strip x"] pz
    have "splitlines (strip x) = [strip x]" by (simp add: splitlines_def)
    with s nz first_token_strip [OF nx] show ?thesis
      by (simp add: Cons True)
  next
    case False
    then obtain M z where L1: "L1 = M @ [z]"
      by (metis append_butlast_last_id)
    from pl ns Cons L1 have pM: "\<forall>y \<in> set M. plain_line y"
      and nM: "\<forall>y \<in> set M. \<exists>c \<in> set y. \<not> isspace c"
      and pz: "plain_line z" and nz: "\<exists>c \<in> set z. \<not> isspace c"
      by simp_all
    let ?mid = "concat (map (\<lambda>l. l @ [CHR 0x0A]) M)"
    have "concat (map (\<lambda>l. l @ [CHR 0x0A]) L) = x @ [CHR 0x0A] @ ?mid @ z @ [CHR 0x0A]"
      by (simp add: Cons L1)
    then have s: "strip (concat (map (\<lambda>l. l @ [CHR 0x0A]) L))
        = lstrip x @ [CHR 0x0A] @ ?mid @ rstrip z"
      using strip_many_lines [OF nx nz, of ?mid] by simp
    have s2: "lstrip x @ [CHR 0x0A] @ ?mid @ rstrip z
        = concat (map (\<lambda>l. l @ [CHR 0x0A]) (lstrip x # M)) @ rstrip z"
      by simp
    have pall: "\<forall>y \<in> set (lstrip x # M). plain_line y"
      using pM plain_lstrip [OF px] by simp
    have prz: "plain_line (rstrip z)" using pz by (rule plain_rstrip)
    have nrz: "\<exists>c \<in> set (rstrip z). \<not> isspace c" using nz by (rule rstrip_nonspace)
    then have rne: "rstrip z \<noteq> []" by auto
    have d: "splitlines (strip (concat (map (\<lambda>l. l @ [CHR 0x0A]) L))) = (lstrip x # M) @ [rstrip z]"
      by (simp only: splitlines_def s s2 splitlines_lines [OF pall prz rne])
    have t: "map first_token ((lstrip x # M) @ [rstrip z]) = map first_token L"
      by (simp add: Cons L1 first_token_lstrip first_token_rstrip [OF nz])
    have n: "\<forall>y \<in> set ((lstrip x # M) @ [rstrip z]). \<exists>c \<in> set y. \<not> isspace c"
      using nM nrz lstrip_nonspace [OF nx] by simp
    from d t n show ?thesis by simp
  qed
qed

lemma fst_new_lines:
  "fst (new_lines sh fs filename c) = splitlines (strip (fst (sh (tail_cmd filename (c + 1)) fs)))"
  by (simp add: new_lines_def split: prod.splits)

lemma diff_numbered:
  assumes pl: "list_all plain_line ls" and nd: "list_all (\<lambda>l. \<not> section_delimiter l) ls"
    and c0: "0 \<le> c" and c1: "c < int (length ls)" and c2: "c + 1 < 2 ^ 64"
  shows "\<exists>d. splitlines (strip (nl_tail_stdout (Some ls) (c + 1))) = d
           \<and> map first_token d = map digits_of [nat c + 1 ..< Suc (length ls)]
           \<and> (\<forall>y \<in> set d. \<exists>x \<in> set y. \<not> isspace x)"
proof -
  let ?L = "map (\<lambda>i. nl_line (Suc i) (ls ! i)) [nat c ..< length ls]"
  from c0 have k: "nat (c + 1) - Suc 0 = nat c" by simp
  from c0 c2 have "\<not> (c + 1 < 0 \<or> 2 ^ 64 \<le> c + 1)" by simp
  then have out: "nl_tail_stdout (Some ls) (c + 1) = concat (map (\<lambda>l. l @ [CHR 0x0A]) ?L)"
    using k by (simp add: nl_tail_stdout_def drop_nl_ba [OF nd])
  from c0 c1 have lt: "nat c < length ls" by simp
  then have ne: "?L \<noteq> []" by auto
  have pl2: "\<forall>x \<in> set ?L. plain_line x"
    using pl by (auto simp: list_all_iff intro: plain_nl_line)
  have ns: "\<forall>x \<in> set ?L. \<exists>c \<in> set x. \<not> isspace c"
    using nl_line_nonspace by auto
  from splitlines_strip_lines [OF ne pl2 ns] obtain d
    where d: "splitlines (strip (concat (map (\<lambda>l. l @ [CHR 0x0A]) ?L))) = d"
      and t: "map first_token d = map first_token ?L"
      and n: "\<forall>y \<in> set d. \<exists>c \<in> set y. \<not> isspace c"
    by blast
  have "map first_token ?L = map digits_of (map Suc [nat c ..< length ls])"
    by (simp add: first_token_nl_line)
  also have "\<dots> = map digits_of [nat c + 1 ..< Suc (length ls)]"
    by (simp add: map_Suc_upt)
  finally have t2: "map first_token ?L = map digits_of [nat c + 1 ..< Suc (length ls)]" .
  have "splitlines (strip (nl_tail_stdout (Some ls) (c + 1))) = d"
    by (simp only: out d)
  with t t2 n show ?thesis by simp
qed

lemma new_lines_numbered:
  assumes sh: "fst (sh (tail_cmd filename (c + 1)) fs) = nl_tail_stdout (Some ls) (c + 1)"
    and pl: "list_all plain_line ls" and nd: "list_all (\<lambda>l. \<not> section_delimiter l) ls"
    and c0: "0 \<le> c" and c1: "c < int (length ls)" and c2: "c + 1 < 2 ^ 64"
  shows "map first_token (fst (new_lines sh fs filename c))
           = map digits_of [nat c + 1 ..< Suc (length ls)]
         \<and> (\<forall>y \<in> set (fst (new_lines sh fs filename c)). \<exists>x \<in> set y. \<not> isspace x)"
  using diff_numbered [OF pl nd c0 c1 c2] by (simp add: fst_new_lines sh)

lemma set_line_no_numbered:
  assumes ne: "d \<noteq> []" and t: "map first_token d = map digits_of ns"
    and n: "\<forall>y \<in> set d. \<exists>x \<in> set y. \<not> isspace x"
  shows "set_line_no d = Inr (int (last ns))"
proof -
  from t have "length d = length ns" by (rule map_eq_imp_length_eq)
  with ne have nne: "ns \<noteq> []" by auto
  have "first_token (last d) = last (map first_token d)"
    using ne by (simp add: last_map)
  also have "\<dots> = digits_of (last ns)"
    using nne by (simp add: t last_map)
  finally have ft: "first_token (last d) = digits_of (last ns)" .
  from ne n have "\<exists>x \<in> set (last d). \<not> isspace x" by simp
  then obtain rest where "split (last d) = first_token (last d) # rest"
    using split_first_token by blast
  with ft ne show ?thesis
    by (simp add: set_line_no_def py_int_digits_of)
qed

lemma diff_line_numbers_numbered:
  "map first_token d = map digits_of ns \<Longrightarrow> \<forall>y \<in> set d. \<exists>x \<in> set y. \<not> isspace x
     \<Longrightarrow> diff_line_numbers d = map int ns"
proof (induction d arbitrary: ns)
  case Nil
  then show ?case by (simp add: diff_line_numbers_def List.map_filter_simps)
next
  case (Cons y d)
  from Cons.prems(1) obtain m ms where ns: "ns = m # ms"
    and ft: "first_token y = digits_of m" and rest: "map first_token d = map digits_of ms"
    by (cases ns) auto
  from Cons.prems(2) have "\<exists>x \<in> set y. \<not> isspace x" and n: "\<forall>y \<in> set d. \<exists>x \<in> set y. \<not> isspace x"
    by simp_all
  then obtain r where "split y = first_token y # r"
    using split_first_token by blast
  with ft have "(case split y of [] \<Rightarrow> None | tok # x \<Rightarrow> py_int tok) = Some (int m)"
    by (simp add: py_int_digits_of)
  moreover have "diff_line_numbers d = map int ms"
    using rest n by (rule Cons.IH)
  ultimately show ?case
    by (simp add: diff_line_numbers_def List.map_filter_simps ns)
qed

section \<open>The offset after a pass\<close>

lemma last_upt_Suc: "k < n \<Longrightarrow> last [k + 1 ..< Suc n] = n"
  by simp

lemma Max_line_numbers: "k < n \<Longrightarrow> Max (set (map int [k + 1 ..< Suc n])) = int n"
proof -
  assume "k < n"
  then have "int n \<in> set (map int [k + 1 ..< Suc n])" by auto
  moreover have "\<And>y. y \<in> set (map int [k + 1 ..< Suc n]) \<Longrightarrow> y \<le> int n" by auto
  ultimately show ?thesis by (intro Max_eqI) auto
qed

lemma set_line_no_of_diff:
  assumes "fst (sh (tail_cmd filename (c + 1)) fs) = nl_tail_stdout (Some ls) (c + 1)"
    and "list_all plain_line ls" and "list_all (\<lambda>l. \<not> section_delimiter l) ls"
    and "0 \<le> c" and "c < int (length ls)" and "c + 1 < 2 ^ 64"
  shows "fst (new_lines sh fs filename c) \<noteq> []"
    and "diff_line_numbers (fst (new_lines sh fs filename c))
           = map int [nat c + 1 ..< Suc (length ls)]"
    and "set_line_no (fst (new_lines sh fs filename c)) = Inr (int (length ls))"
proof -
  let ?d = "fst (new_lines sh fs filename c)"
  let ?ns = "[nat c + 1 ..< Suc (length ls)]"
  from new_lines_numbered [where sh = sh and fs = fs and filename = filename, OF assms]
  have t: "map first_token ?d = map digits_of ?ns"
    and n: "\<forall>y \<in> set ?d. \<exists>x \<in> set y. \<not> isspace x"
    by simp_all
  from assms(4) assms(5) have lt: "nat c < length ls" by simp
  then have "?ns \<noteq> []" by simp
  moreover from t have "length ?d = length ?ns" by (rule map_eq_imp_length_eq)
  ultimately show ne: "?d \<noteq> []" by auto
  show "diff_line_numbers ?d = map int ?ns"
    using t n by (rule diff_line_numbers_numbered)
  have "set_line_no ?d = Inr (int (last ?ns))"
    using ne t n by (rule set_line_no_numbered)
  also have "last ?ns = length ls" using lt by (rule last_upt_Suc)
  finally show "set_line_no ?d = Inr (int (length ls))" .
qed

text \<open>
  C4 (as amended).  When the command line printed what \<open>nl\<close> and \<open>tail\<close> print for a
  file that has more lines than the offset, none of them a section delimiter of \<open>nl\<close>
  and none holding a character at which \<open>splitlines\<close> would cut it, the diff is not
  empty, the line numbers seen in it are those from the offset plus one to the number
  of lines of the file, and the new offset is the greatest of them.  (An empty diff is
  taken for a truncation and does not leave the offset as it is.)
\<close>

theorem offset_is_greatest_line_number_of_diff:
  assumes "fst (sh (tail_cmd filename (line_no + 1)) fs) = nl_tail_stdout (Some ls) (line_no + 1)"
    and "list_all plain_line ls" and "list_all (\<lambda>l. \<not> section_delimiter l) ls"
    and "0 \<le> line_no" and "line_no < int (length ls)" and "line_no + 1 < 2 ^ 64"
  shows "fst (new_lines sh fs filename line_no) \<noteq> []
       \<and> diff_line_numbers (fst (new_lines sh fs filename line_no))
           = map int [nat line_no + 1 ..< Suc (length ls)]
       \<and> set_line_no (fst (new_lines sh fs filename line_no))
           = Inr (Max (set (diff_line_numbers (fst (new_lines sh fs filename line_no)))))"
proof -
  let ?d = "fst (new_lines sh fs filename line_no)"
  let ?ns = "[nat line_no + 1 ..< Suc (length ls)]"
  note r = set_line_no_of_diff [where sh = sh and fs = fs and filename = filename, OF assms]
  from assms(4) assms(5) have lt: "nat line_no < length ls" by simp
  have "set_line_no ?d = Inr (Max (set (map int ?ns)))"
    by (simp only: r(3) Max_line_numbers [OF lt])
  with r(1) r(2) show ?thesis by simp
qed

theorem offset_is_greatest_line_number_of_diff_witness:
  "fst (plain_shell (tail_cmd ''f'' (1 + 1)) (single_file ''f'' [''a'', [], ''c d'']))
     = nl_tail_stdout (Some [''a'', [], ''c d'']) (1 + 1)
   \<and> list_all plain_line [''a'', [], ''c d'']
   \<and> list_all (\<lambda>l. \<not> section_delimiter l) [''a'', [], ''c d'']
   \<and> (0::int) \<le> 1 \<and> (1::int) < int (length [''a'', [], ''c d'']) \<and> (1::int) + 1 < 2 ^ 64
   \<and> diff_line_numbers (fst (new_lines plain_shell (single_file ''f'' [''a'', [], ''c d'']) ''f'' 1))
       = [2, 3]
   \<and> set_line_no (fst (new_lines plain_shell (single_file ''f'' [''a'', [], ''c d'']) ''f'' 1))
       = Inr 3"
proof -
  let ?ls = "[''a'', [], ''c d'']"
  let ?fs = "single_file ''f'' ?ls"
  have h1: "fst (plain_shell (tail_cmd ''f'' (1 + 1)) ?fs) = nl_tail_stdout (Some ?ls) (1 + 1)"
    by code_simp
  have h2: "list_all plain_line ?ls" by code_simp
  have h3: "list_all (\<lambda>l. \<not> section_delimiter l) ?ls" by code_simp
  have h4: "(0::int) \<le> 1" by simp
  have h5: "(1::int) < int (length ?ls)" by simp
  have h6: "(1::int) + 1 < 2 ^ 64" by simp
  have ns: "map int [nat 1 + 1 ..< Suc (length ?ls)] = [2, 3]" by code_simp
  note t = offset_is_greatest_line_number_of_diff
    [where sh = plain_shell and fs = ?fs and filename = "''f''", OF h1 h2 h3 h4 h5 h6]
  from t have a: "diff_line_numbers (fst (new_lines plain_shell ?fs ''f'' 1)) = [2, 3]"
    by (simp only: ns)
  from t have "set_line_no (fst (new_lines plain_shell ?fs ''f'' 1))
      = Inr (Max (set (diff_line_numbers (fst (new_lines plain_shell ?fs ''f'' 1)))))"
    by blast
  then have b: "set_line_no (fst (new_lines plain_shell ?fs ''f'' 1)) = Inr 3"
    by (simp only: a) simp
  from h1 h2 h3 h4 h5 h6 a b show ?thesis by blast
qed

text \<open>
  C4 as stated fails.  The offset is 3 and the file has three lines: the diff is
  empty, and the offset is set to 1 instead of being left at 3.
\<close>

theorem empty_diff_changes_the_offset:
  "fst (new_lines plain_shell (single_file ''f'' [''a'', ''b'', ''c'']) ''f'' 3) = []
   \<and> set_line_no (fst (new_lines plain_shell (single_file ''f'' [''a'', ''b'', ''c'']) ''f'' 3))
       = Inr 1"
  by code_simp

text \<open>
  C3 (as amended).  In a pass that is signalled a modification, when the command line
  printed what \<open>nl\<close> and \<open>tail\<close> print for a file that has more lines than the offset (the
  file has gained at least one line since the offset was set), none of them a section
  delimiter of \<open>nl\<close> and none holding a character at which \<open>splitlines\<close> would cut it, the
  new offset is the number of lines of the file; so whenever the pass ends with an
  offset, that offset is not less than the one before.  A pass that is not signalled
  a modification leaves the offset exactly as it is.  (A pass that finds no line past
  the offset is taken for a truncation.)
\<close>

theorem offset_does_not_decrease_when_lines_were_added:
  assumes "fst (shell env (tail_cmd filename (line_no + 1)) (files env))
             = nl_tail_stdout (Some ls) (line_no + 1)"
    and "list_all plain_line ls" and "list_all (\<lambda>l. \<not> section_delimiter l) ls"
    and "0 \<le> line_no" and "line_no < int (length ls)" and "line_no + 1 < 2 ^ 64"
  shows "set_line_no (fst (new_lines (shell env) (files env) filename line_no))
           = Inr (int (length ls))
       \<and> (\<forall>evs n. watch_cycle filename rx syslog from_addr to_addrs line_no env = (evs, Inr n)
             \<longrightarrow> line_no \<le> n)
       \<and> (inotify_status env \<noteq> 0
             \<longrightarrow> watch_cycle filename rx syslog from_addr to_addrs line_no env
                   = ([], Inr line_no))"
proof -
  let ?d = "fst (new_lines (shell env) (files env) filename line_no)"
  have s: "set_line_no ?d = Inr (int (length ls))"
    using set_line_no_of_diff(3)
      [where sh = "shell env" and fs = "files env" and filename = filename, OF assms] .
  have quiet: "inotify_status env \<noteq> 0
      \<longrightarrow> watch_cycle filename rx syslog from_addr to_addrs line_no env = ([], Inr line_no)"
    by (simp add: watch_cycle_def)
  have "\<forall>evs n. watch_cycle filename rx syslog from_addr to_addrs line_no env = (evs, Inr n)
      \<longrightarrow> line_no \<le> n"
  proof (intro allI impI)
    fix evs n
    assume w: "watch_cycle filename rx syslog from_addr to_addrs line_no env = (evs, Inr n)"
    show "line_no \<le> n"
    proof (cases "inotify_status env = 0")
      case True
      with w s have "n = int (length ls)"
        by (auto simp: watch_cycle_def Let_def split: prod.splits option.splits)
      with assms(5) show ?thesis by simp
    next
      case False
      with w show ?thesis by (simp add: watch_cycle_def)
    qed
  qed
  with s quiet show ?thesis by simp
qed

theorem offset_does_not_decrease_when_lines_were_added_witness:
  "fst (shell (modified (single_file ''f'' [''x'', ''y'']) sinks_ok) (tail_cmd ''f'' (1 + 1))
          (files (modified (single_file ''f'' [''x'', ''y'']) sinks_ok)))
     = nl_tail_stdout (Some [''x'', ''y'']) (1 + 1)
   \<and> list_all plain_line [''x'', ''y'']
   \<and> list_all (\<lambda>l. \<not> section_delimiter l) [''x'', ''y'']
   \<and> (0::int) \<le> 1 \<and> (1::int) < int (length [''x'', ''y'']) \<and> (1::int) + 1 < 2 ^ 64
   \<and> set_line_no (fst (new_lines (shell (modified (single_file ''f'' [''x'', ''y'']) sinks_ok))
        (files (modified (single_file ''f'' [''x'', ''y'']) sinks_ok)) ''f'' 1)) = Inr 2
   \<and> snd (watch_cycle ''f'' rx_empty True [] [] 1
        (modified (single_file ''f'' [''x'', ''y'']) sinks_ok)) = Inr 2"
proof -
  let ?ls = "[''x'', ''y'']"
  let ?env = "modified (single_file ''f'' ?ls) sinks_ok"
  have h1: "fst (shell ?env (tail_cmd ''f'' (1 + 1)) (files ?env))
      = nl_tail_stdout (Some ?ls) (1 + 1)"
    by code_simp
  have h2: "list_all plain_line ?ls" by code_simp
  have h3: "list_all (\<lambda>l. \<not> section_delimiter l) ?ls" by code_simp
  have h4: "(0::int) \<le> 1" by simp
  have h5: "(1::int) < int (length ?ls)" by simp
  have h6: "(1::int) + 1 < 2 ^ 64" by simp
  note t = offset_does_not_decrease_when_lines_were_added
    [where env = ?env and filename = "''f''", OF h1 h2 h3 h4 h5 h6]
  from t have a: "set_line_no (fst (new_lines (shell ?env) (files ?env) ''f'' 1)) = Inr 2"
    by simp
  have b: "snd (watch_cycle ''f'' rx_empty True [] [] 1 ?env) = Inr 2"
    by code_simp
  from h1 h2 h3 h4 h5 h6 a b show ?thesis by blast
qed

text \<open>
  C3 as stated fails.  The offset is 2 and the file has stayed the same, with two
  lines, when a modification is signalled: the pass reads no line and the offset
  becomes 1.
\<close>

theorem unchanged_file_lowers_the_offset:
  "watch_cycle ''f'' rx_empty True [] [] 2 (modified (single_file ''f'' [''a'', ''b'']) sinks_ok)
     = ([], Inr 1)"
  by code_simp

section \<open>Reading the new lines twice\<close>





lemma str_int_nonempty: "str_int n \<noteq> []"
  by (simp add: str_int_def digits_of_nonempty)











end
